theory Spec2Isabelle
  imports Complex_Main "HOL-Library.Sublist"
begin

section \<open>The logger of logger.c: shared state and leaf functions\<close>

text \<open>
  The C file keeps its state in file-scope variables: the 256-byte array
  \<open>logger_buffer\<close>, the threshold \<open>currentLogLevel\<close>, the 50-byte array \<open>app_name\<close>
  and the two function pointers. The model passes them as a record. A byte is a
  \<open>char\<close>, an array is a \<open>char list\<close> of the array's length, and a C string argument is
  the list of its characters before the terminator.

  A read or write outside \<open>logger_buffer\<close> or \<open>logger_array\<close> is undefined behaviour
  in C; the model makes it the value \<open>Inl OutOfBounds\<close>. What lies in memory behind
  the fault logger's \<open>separator\<close> array, which every call of that logger reads, is a
  parameter of the model.
\<close>

definition LOGGER_BUFFER_MAX_LENGTH :: nat where
  "LOGGER_BUFFER_MAX_LENGTH = 256"

definition APP_NAME_SIZE :: nat where
  "APP_NAME_SIZE = 50"

definition NUL :: char where
  "NUL = CHR 0x00"

datatype fault = OutOfBounds

datatype logger_levels_t = DBG | INFO | WARN | ERR | FATAL

text \<open>The enumerators' integer values, in declaration order from 0.\<close>

fun level_num :: "logger_levels_t \<Rightarrow> int" where
  "level_num DBG = 0"
| "level_num INFO = 1"
| "level_num WARN = 2"
| "level_num ERR = 3"
| "level_num FATAL = 4"

text \<open>
  \<open>pfGetMilliseconds\<close> is \<open>None\<close> for the NULL pointer and otherwise holds the value
  the registered provider returns when called; a finite \<open>float\<close> is the rational it
  denotes. \<open>pfLoggerPrintf\<close> is \<open>True\<close> when a sink is registered; what the sink is
  called with, the buffer and the \<open>uint8_t\<close> length, is appended to \<open>sink_calls\<close>.
\<close>

record logger_state =
  logger_buffer :: "char list"
  currentLogLevel :: logger_levels_t
  app_name :: "char list"
  pfGetMilliseconds :: "rat option"
  pfLoggerPrintf :: bool
  sink_calls :: "(char list \<times> nat) list"

text \<open>The characters of the C string that starts at the head of an array.\<close>

definition c_str :: "char list \<Rightarrow> string" where
  "c_str a = takeWhile (\<lambda>c. c \<noteq> NUL) a"

text \<open>Overwriting \<open>length bytes\<close> bytes of an array from offset \<open>off\<close> (in range).\<close>

definition write_at :: "char list \<Rightarrow> nat \<Rightarrow> char list \<Rightarrow> char list" where
  "write_at a off bytes = take off a @ bytes @ drop (off + length bytes) a"

text \<open>
  The static initialisers: a zeroed buffer, \<open>currentLogLevel = WARN\<close>,
  \<open>app_name = "MyApp"\<close> (the rest of the array zero), both pointers NULL.
\<close>

definition initial_state :: logger_state where
  "initial_state =
     \<lparr> logger_buffer = replicate LOGGER_BUFFER_MAX_LENGTH NUL,
       currentLogLevel = WARN,
       app_name = ''MyApp'' @ replicate (APP_NAME_SIZE - 5) NUL,
       pfGetMilliseconds = None,
       pfLoggerPrintf = False,
       sink_calls = [] \<rparr>"

definition GetMilliseconds :: "logger_state \<Rightarrow> rat" where
  "GetMilliseconds s = (case pfGetMilliseconds s of Some t \<Rightarrow> t | None \<Rightarrow> - 1)"

definition LoggerPrintf :: "char list \<Rightarrow> nat \<Rightarrow> logger_state \<Rightarrow> logger_state" where
  "LoggerPrintf p len s =
     (if pfLoggerPrintf s then s\<lparr>sink_calls := sink_calls s @ [(p, len)]\<rparr> else s)"

definition LoggerRegisterAppFunctions ::
  "rat option \<Rightarrow> bool \<Rightarrow> logger_state \<Rightarrow> logger_state" where
  "LoggerRegisterAppFunctions pGetMilliseconds pLoggerPrintf s =
     s\<lparr>pfGetMilliseconds := pGetMilliseconds, pfLoggerPrintf := pLoggerPrintf\<rparr>"

text \<open>
  \<open>GetAppName\<close> returns the address of \<open>app_name\<close>; its callers read the C string
  there.
\<close>

definition GetAppName :: "logger_state \<Rightarrow> string" where
  "GetAppName s = c_str (app_name s)"

text \<open>
  \<open>strncpy(dest, src, n)\<close> writes exactly \<open>n\<close> bytes: the first \<open>n\<close> characters of
  \<open>src\<close>, padded with NUL when \<open>src\<close> is shorter.
\<close>

definition c_strncpy :: "char list \<Rightarrow> string \<Rightarrow> nat \<Rightarrow> char list" where
  "c_strncpy dest src n =
     write_at dest 0 (take n (c_str src) @ replicate (n - length (c_str src)) NUL)"

definition SetAppName :: "string \<Rightarrow> logger_state \<Rightarrow> logger_state" where
  "SetAppName appName s =
     s\<lparr>app_name := (c_strncpy (app_name s) appName (APP_NAME_SIZE - 1))
                       [APP_NAME_SIZE - 1 := NUL]\<rparr>"

definition GetCurrentLogLevel :: "logger_state \<Rightarrow> logger_levels_t" where
  "GetCurrentLogLevel s = currentLogLevel s"

definition SetCurrentLogLevel :: "logger_levels_t \<Rightarrow> logger_state \<Rightarrow> logger_state" where
  "SetCurrentLogLevel level s = s\<lparr>currentLogLevel := level\<rparr>"

definition GetLoggerBuffer :: "logger_state \<Rightarrow> char list" where
  "GetLoggerBuffer s = logger_buffer s"

text \<open>
  \<open>strchr\<close> and \<open>strrchr\<close> on a C string: the index of the first and of the last
  occurrence of a (non-NUL) character, \<open>None\<close> for the NULL result.
\<close>

definition c_strchr :: "string \<Rightarrow> char \<Rightarrow> nat option" where
  "c_strchr str c =
     (if c \<in> set str then Some (length (takeWhile (\<lambda>x. x \<noteq> c) str)) else None)"

definition c_strrchr :: "string \<Rightarrow> char \<Rightarrow> nat option" where
  "c_strrchr str c =
     (if c \<in> set str
      then Some (length str - 1 - length (takeWhile (\<lambda>x. x \<noteq> c) (rev str)))
      else None)"

text \<open>
  The comparison \<open>lastSlash > lastBackslash\<close> of two results of \<open>strrchr\<close> on the
  same string, NULL comparing below every position.
\<close>

fun ptr_gt :: "nat option \<Rightarrow> nat option \<Rightarrow> bool" where
  "ptr_gt None _ = False"
| "ptr_gt (Some i) None = True"
| "ptr_gt (Some i) (Some j) = (j < i)"

definition GetFileNameFromPath :: "string \<Rightarrow> string" where
  "GetFileNameFromPath path =
     (let lastSlash = c_strrchr path CHR ''/'';
          lastBackslash = c_strrchr path CHR 0x5C;
          lastSeparator = (if ptr_gt lastSlash lastBackslash then lastSlash else lastBackslash)
      in case lastSeparator of Some i \<Rightarrow> drop (i + 1) path | None \<Rightarrow> path)"

section \<open>The C library's formatting\<close>

definition digit_char :: "nat \<Rightarrow> char" where
  "digit_char d = ''0123456789'' ! d"

fun dec_nat :: "nat \<Rightarrow> string" where
  "dec_nat n = (if n < 10 then [digit_char n] else dec_nat (n div 10) @ [digit_char (n mod 10)])"

declare dec_nat.simps [simp del]

text \<open>\<open>%d\<close> of an \<open>int\<close>.\<close>

definition fmt_d :: "int \<Rightarrow> string" where
  "fmt_d i = (if i < 0 then ''-'' @ dec_nat (nat (- i)) else dec_nat (nat i))"

text \<open>\<open>%u\<close> given a 32-bit \<open>int\<close>: the value is read as \<open>unsigned int\<close>.\<close>

definition fmt_u :: "int \<Rightarrow> string" where
  "fmt_u i = dec_nat (nat (i mod 2 ^ 32))"

text \<open>
  \<open>%0.1f\<close> of a finite value: sign, the integer part and one decimal, the exact
  value rounded to the nearest tenth (ties to even).
\<close>

definition round_tenths :: "rat \<Rightarrow> nat" where
  "round_tenths x =
     (let t = \<bar>x\<bar> * 10; f = \<lfloor>t\<rfloor>; r = t - of_int f
      in nat (if r < 1 / 2 then f else if 1 / 2 < r then f + 1
              else if even f then f else f + 1))"

definition fmt_f1 :: "rat \<Rightarrow> string" where
  "fmt_f1 x =
     (if x < 0 then ''-'' else '''') @ dec_nat (round_tenths x div 10) @ ''.''
       @ [digit_char (round_tenths x mod 10)]"

text \<open>
  \<open>snprintf(a + off, n, ...)\<close> where the format renders to \<open>out\<close>: nothing is written
  for \<open>n = 0\<close>; otherwise the first \<open>n - 1\<close> characters of \<open>out\<close> and a NUL are written
  from offset \<open>off\<close>. The result is the array and the length of \<open>out\<close>, the number of
  characters the untruncated rendering has. Writing past the array's end is the fault.
\<close>

definition c_snprintf :: "char list \<Rightarrow> nat \<Rightarrow> nat \<Rightarrow> string \<Rightarrow> fault + (char list \<times> nat)" where
  "c_snprintf a off n out =
     (if n = 0 then Inr (a, length out)
      else if length a < off + length (take (n - 1) out) + 1 then Inl OutOfBounds
      else Inr (write_at a off (take (n - 1) out @ [NUL]), length out))"

section \<open>The formatting logger (\<open>LOGGER_ENABLED\<close>)\<close>

text \<open>\<open>logger_array\<close>: the name and the colour of each level, indexed by the level.\<close>

definition logger_array :: "(string \<times> string) list" where
  "logger_array =
     [(''DBG'',   [CHR 0x1B] @ ''[37;1m''),
      (''INFO'',  [CHR 0x1B] @ ''[32;1m''),
      (''WARN'',  [CHR 0x1B] @ ''[33;1m''),
      (''ERR'',   [CHR 0x1B] @ ''[31;1m''),
      (''FATAL'', [CHR 0x1B] @ ''[31;1m'')]"

definition RESET_NEWLINE :: string where
  "RESET_NEWLINE = [CHR 0x0A, CHR 0x0D, CHR 0x1B] @ ''[0m''"

text \<open>
  The rendering of the first \<open>snprintf\<close>'s format
  \<open>"%s%s[%0.1f] : %s : %s : %s : %d -> "\<close>.
\<close>

definition preamble :: "logger_state \<Rightarrow> nat \<Rightarrow> string \<Rightarrow> string \<Rightarrow> int \<Rightarrow> string" where
  "preamble s level file function line =
     snd (logger_array ! level) @ GetAppName s @ ''['' @ fmt_f1 (GetMilliseconds s)
       @ ''] : '' @ fst (logger_array ! level) @ '' : '' @ GetFileNameFromPath file
       @ '' : '' @ function @ '' : '' @ fmt_d line @ '' -> ''"

text \<open>
  \<open>size_t\<close> arithmetic wraps. \<open>RESET_NEWLINE\<close> is declared \<open>const char*\<close>, so
  \<open>sizeof(RESET_NEWLINE)\<close> is the size of a pointer: the parameter \<open>psz\<close>, 4 on a
  32-bit target and 8 on a 64-bit one. \<open>size_t\<close> has the width of a pointer.
\<close>

definition to_size_t :: "nat \<Rightarrow> int \<Rightarrow> nat" where
  "to_size_t psz i = nat (i mod 2 ^ (8 * psz))"

text \<open>
  The block of \<open>ZB_printf\<close> that renders the user's message after a preamble of
  length \<open>len\<close>: \<open>size\<close> is computed in \<open>size_t\<close>, \<open>msg\<close> is the rendering of \<open>fmt\<close>
  with its arguments, and the result is the buffer with the updated \<open>length\<close>.
\<close>

definition message_part :: "nat \<Rightarrow> char list \<Rightarrow> nat \<Rightarrow> string \<Rightarrow> fault + (char list \<times> nat)" where
  "message_part psz buf len msg =
     (let size = to_size_t psz (int LOGGER_BUFFER_MAX_LENGTH - int psz - int len) in
      if 0 < size then
        (case c_snprintf buf len size msg of
           Inl e \<Rightarrow> Inl e
         | Inr (buf', written) \<Rightarrow>
             Inr (buf', if 0 < written
                        then (if size < written then len + size else len + written)
                        else len))
      else Inr (buf, len))"

text \<open>
  \<open>ZB_printf\<close> of the formatting logger: the threshold test, \<open>memset\<close> and the
  preamble, the message, the trailer, and the hand-over to \<open>LoggerPrintf\<close>, whose
  length parameter is a \<open>uint8_t\<close>. The enumeration has no negative enumerator, so
  its type is \<open>unsigned int\<close> (the choice of gcc and clang) and the threshold test
  converts the 32-bit \<open>level\<close> to unsigned: a negative \<open>level\<close> passes the test.
  \<open>logger_array[level]\<close> outside the five entries is the fault.
\<close>

definition ZB_printf ::
  "nat \<Rightarrow> int \<Rightarrow> string \<Rightarrow> string \<Rightarrow> int \<Rightarrow> string \<Rightarrow> logger_state \<Rightarrow> fault + logger_state" where
  "ZB_printf psz level file function line msg s =
     (if level_num (GetCurrentLogLevel s) \<le> level mod 2 ^ 32 then
        (if level < 0 \<or> int (length logger_array) \<le> level then Inl OutOfBounds
         else
           (case c_snprintf (replicate LOGGER_BUFFER_MAX_LENGTH NUL) 0 LOGGER_BUFFER_MAX_LENGTH
                   (preamble s (nat level) file function line) of
              Inl e \<Rightarrow> Inl e
            | Inr (buf1, len1) \<Rightarrow>
                (case message_part psz buf1 len1 msg of
                   Inl e \<Rightarrow> Inl e
                 | Inr (buf2, len2) \<Rightarrow>
                     (case c_snprintf buf2 len2
                             (to_size_t psz (int LOGGER_BUFFER_MAX_LENGTH - int len2))
                             RESET_NEWLINE of
                        Inl e \<Rightarrow> Inl e
                      | Inr (buf3, n) \<Rightarrow>
                          Inr (LoggerPrintf buf3 ((len2 + psz) mod 256)
                                 (s\<lparr>logger_buffer := buf3\<rparr>))))))
      else Inr s)"

text \<open>The bytes a sink call hands over: the first \<open>len\<close> bytes at the pointer.\<close>

definition delivered :: "char list \<times> nat \<Rightarrow> char list" where
  "delivered call = take (snd call) (fst call)"

section \<open>The fault ring logger (\<open>HARD_FAULT_LOGGER_ENABLED\<close>)\<close>

text \<open>
  This \<open>ZB_printf\<close> reads and writes \<open>logger_buffer\<close> only, so the model passes the
  buffer. \<open>separator\<close> is a one-byte array holding \<open>'-'\<close>, without a terminator, and
  the final \<open>snprintf\<close> prints it with \<open>%s\<close>: the read runs past the array, through
  the bytes of the stack behind it, to the first NUL there. Those bytes are the
  parameter \<open>behind\<close> of the model, the memory that follows the array at the time of
  the call; \<open>[]\<close> is a NUL right behind the separator.
\<close>

definition separator :: char where
  "separator = CHR ''-''"

text \<open>\<open>%s\<close> of \<open>separator\<close>: the separator and the bytes behind it up to the first NUL.\<close>

definition separator_rendered :: "char list \<Rightarrow> string" where
  "separator_rendered behind = separator # c_str behind"

text \<open>
  \<open>(int)(log10(fabs(line)) + 1)\<close> is the number of decimal digits of \<open>|line|\<close>; the
  model computes the digits instead of the floating-point logarithm. The lengths
  are natural numbers: the \<open>int\<close> sums of the source do not overflow for strings
  shorter than \<open>2^31\<close>.
\<close>

definition length_of_line :: "int \<Rightarrow> nat" where
  "length_of_line line =
     (if line = 0 then 1
      else length (dec_nat (nat \<bar>line\<bar>)) + (if line < 0 then 1 else 0))"

definition new_log_length :: "string \<Rightarrow> int \<Rightarrow> nat" where
  "new_log_length file line = length (GetFileNameFromPath file) + length_of_line line + 1"

text \<open>
  \<open>strrchr(logger_buffer, separator[0]) == NULL ? 0 : strrchr(...) - logger_buffer + 1\<close>.
  \<open>strrchr\<close> runs to the terminator: an array without a NUL is read past its end.
\<close>

definition length_of_stored_log :: "char list \<Rightarrow> fault + nat" where
  "length_of_stored_log buf =
     (if NUL \<in> set buf
      then Inr (case c_strrchr (c_str buf) separator of None \<Rightarrow> 0 | Some i \<Rightarrow> i + 1)
      else Inl OutOfBounds)"

text \<open>
  The same with \<open>strchr\<close>, which stops at the first separator and otherwise runs to
  the terminator.
\<close>

definition latest_stored_log_length :: "char list \<Rightarrow> fault + nat" where
  "latest_stored_log_length buf =
     (case c_strchr (c_str buf) separator of
        Some i \<Rightarrow> Inr (i + 1)
      | None \<Rightarrow> if NUL \<in> set buf then Inr 0 else Inl OutOfBounds)"

text \<open>
  One pass of the loop body: \<open>memcpy\<close> of the bytes after the first token to the
  front (a forward copy of overlapping ranges), then \<open>memset\<close> of the vacated tail.
\<close>

definition shift_out :: "nat \<Rightarrow> char list \<Rightarrow> char list" where
  "shift_out k buf =
     write_at
       (write_at buf 0 (take (LOGGER_BUFFER_MAX_LENGTH - k) (drop k buf)))
       (LOGGER_BUFFER_MAX_LENGTH - k) (replicate k NUL)"

text \<open>
  The \<open>do ... while\<close> loop. It need not terminate, so it is a partial function:
  \<open>None\<close> is the loop that runs forever. The result is the buffer and the final
  \<open>length_of_stored_log\<close>.
\<close>

partial_function (option) evict_loop ::
  "nat \<Rightarrow> char list \<Rightarrow> (fault + char list \<times> nat) option" where
  "evict_loop new buf =
     (case latest_stored_log_length buf of
        Inl e \<Rightarrow> Some (Inl e)
      | Inr k \<Rightarrow>
          (case length_of_stored_log (shift_out k buf) of
             Inl e \<Rightarrow> Some (Inl e)
           | Inr stored \<Rightarrow>
               if LOGGER_BUFFER_MAX_LENGTH - stored < new
               then evict_loop new (shift_out k buf)
               else Some (Inr (shift_out k buf, stored))))"

text \<open>
  The final \<open>snprintf(logger_buffer + length_of_stored_log, sizeof(logger_buffer) -
  length_of_stored_log, "%s%u%s", ...)\<close>.
\<close>

definition append_log ::
  "char list \<Rightarrow> string \<Rightarrow> int \<Rightarrow> char list \<Rightarrow> nat \<Rightarrow> fault + char list" where
  "append_log behind file line buf stored =
     (case c_snprintf buf stored (LOGGER_BUFFER_MAX_LENGTH - stored)
             (GetFileNameFromPath file @ fmt_u line @ separator_rendered behind) of
        Inl e \<Rightarrow> Inl e
      | Inr (buf', n) \<Rightarrow> Inr buf')"

definition ZB_printf_hf ::
  "char list \<Rightarrow> string \<Rightarrow> int \<Rightarrow> char list \<Rightarrow> (fault + char list) option" where
  "ZB_printf_hf behind file line buf =
     (case length_of_stored_log buf of
        Inl e \<Rightarrow> Some (Inl e)
      | Inr stored \<Rightarrow>
          if stored = 0
          then Some (append_log behind file line (replicate LOGGER_BUFFER_MAX_LENGTH NUL) 0)
          else if LOGGER_BUFFER_MAX_LENGTH < stored
          then Some (Inr (replicate LOGGER_BUFFER_MAX_LENGTH NUL))
          else if LOGGER_BUFFER_MAX_LENGTH - stored < new_log_length file line
          then (case evict_loop (new_log_length file line) buf of
                  None \<Rightarrow> None
                | Some (Inl e) \<Rightarrow> Some (Inl e)
                | Some (Inr (buf', stored')) \<Rightarrow>
                    Some (append_log behind file line buf' stored'))
          else Some (append_log behind file line buf stored))"

text \<open>
  A sequence of calls, in order, each finding the same bytes behind \<open>separator\<close>; it
  stops at the first fault or endless loop.
\<close>

fun calls_hf ::
  "char list \<Rightarrow> (string \<times> int) list \<Rightarrow> char list \<Rightarrow> (fault + char list) option" where
  "calls_hf behind [] buf = Some (Inr buf)"
| "calls_hf behind ((file, line) # cs) buf =
     (case ZB_printf_hf behind file line buf of
        None \<Rightarrow> None
      | Some (Inl e) \<Rightarrow> Some (Inl e)
      | Some (Inr buf') \<Rightarrow> calls_hf behind cs buf')"

text \<open>
  The buffers that calls of \<open>ZB_printf\<close> reach from the zero-initialised array,
  whatever lies behind \<open>separator\<close> at each call.
\<close>

inductive reachable :: "char list \<Rightarrow> bool" where
  zeroed: "reachable (replicate LOGGER_BUFFER_MAX_LENGTH NUL)"
| call: "reachable buf \<Longrightarrow> ZB_printf_hf behind file line buf = Some (Inr buf') \<Longrightarrow>
         reachable buf'"

subsection \<open>What the specification expects of the ring\<close>

text \<open>
  The token the specification describes for a call: basename, the decimal
  rendering of the line, the separator.
\<close>

definition spec_token :: "string \<times> int \<Rightarrow> string" where
  "spec_token c = GetFileNameFromPath (fst c) @ fmt_d (snd c) @ [separator]"

text \<open>
  Scanning a string for its separator-terminated tokens, left to right; \<open>cur\<close> is
  the token being read. Bytes after the last separator are no token.
\<close>

fun scan_tokens :: "string \<Rightarrow> string \<Rightarrow> string list" where
  "scan_tokens cur [] = []"
| "scan_tokens cur (c # cs) =
     (if c = separator then (cur @ [c]) # scan_tokens [] cs else scan_tokens (cur @ [c]) cs)"

definition buffer_tokens :: "char list \<Rightarrow> string list" where
  "buffer_tokens buf = scan_tokens [] (c_str buf)"

section \<open>Arrays and the bounded formatter\<close>

lemma length_write_at:
  "off + length bs \<le> length a \<Longrightarrow> length (write_at a off bs) = length a"
  by (simp add: write_at_def)

lemma to_size_t_id:
  assumes "0 \<le> i" and "i \<le> 256" and "2 \<le> psz"
  shows "to_size_t psz i = nat i"
proof -
  have "(2::int) ^ 16 \<le> 2 ^ (8 * psz)"
    using assms(3) by (intro power_increasing) simp_all
  then have "i < 2 ^ (8 * psz)" using assms(2) by simp
  then show ?thesis using assms(1) by (simp add: to_size_t_def)
qed

lemma update_last_cell: "length x = n \<Longrightarrow> (x @ [c])[n := v] = x @ [v]"
  by (simp add: list_update_append)

lemma SetAppName_stored:
  assumes "length (app_name s) = APP_NAME_SIZE"
  shows "app_name (SetAppName appName s)
           = take 49 (c_str appName) @ replicate (49 - length (c_str appName)) NUL @ [NUL]"
proof -
  let ?x = "take 49 (c_str appName) @ replicate (49 - length (c_str appName)) NUL"
  have len: "length ?x = 49" by simp
  have "c_strncpy (app_name s) appName 49 = ?x @ drop 49 (app_name s)"
    by (simp add: c_strncpy_def write_at_def min_def)
  moreover have "length (drop 49 (app_name s)) = 1"
    using assms by (simp add: APP_NAME_SIZE_def)
  then obtain c where "drop 49 (app_name s) = [c]"
    by (cases "drop 49 (app_name s)") auto
  ultimately have "(c_strncpy (app_name s) appName 49)[49 := NUL] = (?x @ [c])[49 := NUL]"
    by simp
  also have "\<dots> = ?x @ [NUL]"
    using len by (rule update_last_cell)
  finally have "(c_strncpy (app_name s) appName 49)[49 := NUL] = ?x @ [NUL]" .
  then show ?thesis by (simp add: SetAppName_def APP_NAME_SIZE_def)
qed

lemma c_str_no_NUL: "NUL \<notin> set (c_str a)"
  unfolding c_str_def by (induction a) auto

lemma c_str_pad:
  assumes "NUL \<notin> set xs"
  shows "c_str (xs @ replicate n NUL @ [NUL]) = xs"
proof -
  have "takeWhile (\<lambda>c. c \<noteq> NUL) (replicate n NUL @ [NUL]) = []"
    by (cases n) simp_all
  moreover have "takeWhile (\<lambda>c. c \<noteq> NUL) (xs @ replicate n NUL @ [NUL])
                   = xs @ takeWhile (\<lambda>c. c \<noteq> NUL) (replicate n NUL @ [NUL])"
    using assms by (intro takeWhile_append2) auto
  ultimately show ?thesis by (simp add: c_str_def)
qed

section \<open>The application name\<close>

text \<open>
  Claim C9. \<open>SetAppName\<close> stores at most 49 characters and a NUL terminator in the
  50-byte array: the array keeps its size, its last byte is NUL, and \<open>GetAppName\<close>
  then reads the first 49 characters of the argument. For a 60-character argument
  the array holds exactly its first 49 characters and the terminator.
\<close>

theorem SetAppName_truncates:
  assumes "length (app_name s) = APP_NAME_SIZE"
  shows "length (app_name (SetAppName appName s)) = APP_NAME_SIZE
       \<and> app_name (SetAppName appName s) ! (APP_NAME_SIZE - 1) = NUL
       \<and> GetAppName (SetAppName appName s) = take (APP_NAME_SIZE - 1) (c_str appName)
       \<and> length (GetAppName (SetAppName appName s)) \<le> 49
       \<and> (length (c_str appName) = 60 \<longrightarrow>
            app_name (SetAppName appName s) = take 49 (c_str appName) @ [NUL]
            \<and> length (GetAppName (SetAppName appName s)) = 49)"
proof -
  let ?x = "take 49 (c_str appName)"
  let ?p = "replicate (49 - length (c_str appName)) NUL"
  have st: "app_name (SetAppName appName s) = ?x @ ?p @ [NUL]"
    using SetAppName_stored [OF assms] by simp
  have l49: "length (?x @ ?p) = 49" by simp
  have "NUL \<notin> set ?x" using c_str_no_NUL [of appName] by (auto dest: in_set_takeD)
  then have g: "GetAppName (SetAppName appName s) = ?x"
    by (simp add: GetAppName_def st c_str_pad)
  have n: "(?x @ ?p @ [NUL]) ! 49 = NUL"
    using l49 by (metis append.assoc nth_append_length)
  show ?thesis using st g n by (simp add: APP_NAME_SIZE_def)
qed

theorem SetAppName_truncates_witness:
  "length (app_name initial_state) = APP_NAME_SIZE
   \<and> length (c_str (replicate 60 CHR ''n'')) = 60
   \<and> app_name (SetAppName (replicate 60 CHR ''n'') initial_state) = replicate 49 CHR ''n'' @ [NUL]
   \<and> GetAppName (SetAppName (replicate 60 CHR ''n'') initial_state) = replicate 49 CHR ''n''"
proof -
  have h: "length (app_name initial_state) = APP_NAME_SIZE"
    by (simp add: initial_state_def APP_NAME_SIZE_def)
  have c: "c_str (replicate 60 CHR ''n'') = replicate 60 CHR ''n''"
    by (simp add: c_str_def NUL_def)
  show ?thesis
    using SetAppName_truncates [OF h, of "replicate 60 CHR ''n''"] h c
    by (simp add: APP_NAME_SIZE_def)
qed

section \<open>The formatting logger\<close>

subsection \<open>A record that fits into the buffer\<close>

lemma write_at_zero_tail:
  assumes "length x = off" and "length out < m"
  shows "write_at (x @ replicate m NUL) off (out @ [NUL])
           = x @ out @ replicate (m - length out) NUL"
proof -
  have "drop (off + length (out @ [NUL])) (x @ replicate m NUL)
          = replicate (m - length out - 1) NUL"
    using assms by simp
  moreover have "NUL # replicate (m - length out - 1) NUL = replicate (m - length out) NUL"
    using assms(2) by (cases "m - length out") simp_all
  ultimately show ?thesis
    using assms(1) by (simp add: write_at_def)
qed

lemma c_snprintf_zero_tail:
  assumes "length x = off" and "length out < n" and "n \<le> m"
  shows "c_snprintf (x @ replicate m NUL) off n out
           = Inr (x @ out @ replicate (m - length out) NUL, length out)"
proof -
  have t: "take (n - 1) out = out"
    using assms(2) by simp
  have "length out < m"
    using assms(2,3) by simp
  from write_at_zero_tail [OF assms(1) this]
  show ?thesis
    using assms by (simp add: c_snprintf_def t)
qed

lemma message_part_fits:
  assumes "2 \<le> psz" and "length x = len"
    and "len + length msg + psz < LOGGER_BUFFER_MAX_LENGTH"
  shows "message_part psz (x @ replicate (LOGGER_BUFFER_MAX_LENGTH - len) NUL) len msg
           = Inr (x @ msg @ replicate (LOGGER_BUFFER_MAX_LENGTH - len - length msg) NUL,
                  len + length msg)"
proof -
  define size where "size = LOGGER_BUFFER_MAX_LENGTH - psz - len"
  have sz: "to_size_t psz (int LOGGER_BUFFER_MAX_LENGTH - int psz - int len) = size"
    using assms(3)
      to_size_t_id [OF _ _ assms(1), of "int LOGGER_BUFFER_MAX_LENGTH - int psz - int len"]
    by (simp add: size_def LOGGER_BUFFER_MAX_LENGTH_def)
  have fit: "length msg < size" and le: "size \<le> LOGGER_BUFFER_MAX_LENGTH - len"
    using assms(3) by (simp_all add: size_def)
  from c_snprintf_zero_tail [OF assms(2) fit le]
  show ?thesis
    using fit by (simp add: message_part_def sz)
qed

lemma ZB_printf_fits:
  assumes "level_num (GetCurrentLogLevel s) \<le> level" and "level \<le> 4" and "2 \<le> psz"
    and "length (preamble s (nat level) file function line) + length msg + psz
           < LOGGER_BUFFER_MAX_LENGTH"
    and "length (preamble s (nat level) file function line) + length msg + length RESET_NEWLINE
           < LOGGER_BUFFER_MAX_LENGTH"
  shows "ZB_printf psz level file function line msg s
           = Inr (LoggerPrintf
                    (preamble s (nat level) file function line @ msg @ RESET_NEWLINE
                       @ replicate (LOGGER_BUFFER_MAX_LENGTH
                           - (length (preamble s (nat level) file function line) + length msg
                                + length RESET_NEWLINE)) NUL)
                    (length (preamble s (nat level) file function line) + length msg + psz)
                    (s\<lparr>logger_buffer :=
                         preamble s (nat level) file function line @ msg @ RESET_NEWLINE
                           @ replicate (LOGGER_BUFFER_MAX_LENGTH
                               - (length (preamble s (nat level) file function line) + length msg
                                    + length RESET_NEWLINE)) NUL\<rparr>))"
proof -
  let ?pre = "preamble s (nat level) file function line"
  let ?M = LOGGER_BUFFER_MAX_LENGTH
  have nonneg: "0 \<le> level"
    using assms(1) by (cases "GetCurrentLogLevel s") simp_all
  then have test: "level_num (GetCurrentLogLevel s) \<le> level mod 2 ^ 32"
    using assms(1,2) by simp
  have inr: "\<not> (level < 0 \<or> int (length logger_array) \<le> level)"
    using nonneg assms(2) by (simp add: logger_array_def)
  have s1: "c_snprintf (replicate ?M NUL) 0 ?M ?pre = Inr (?pre @ replicate (?M - length ?pre) NUL, length ?pre)"
    using c_snprintf_zero_tail [of "[]" 0 ?pre ?M ?M] assms(4) by simp
  have s2: "message_part psz (?pre @ replicate (?M - length ?pre) NUL) (length ?pre) msg
              = Inr (?pre @ msg @ replicate (?M - length ?pre - length msg) NUL,
                     length ?pre + length msg)"
    using assms(3) _ assms(4) by (rule message_part_fits) simp
  have n: "to_size_t psz (int ?M - (int (length ?pre) + int (length msg)))
             = ?M - (length ?pre + length msg)"
    using assms(4)
      to_size_t_id [OF _ _ assms(3), of "int ?M - (int (length ?pre) + int (length msg))"]
    by (simp add: LOGGER_BUFFER_MAX_LENGTH_def)
  have "c_snprintf ((?pre @ msg) @ replicate (?M - (length ?pre + length msg)) NUL)
           (length ?pre + length msg) (?M - (length ?pre + length msg)) RESET_NEWLINE
          = Inr ((?pre @ msg) @ RESET_NEWLINE
                   @ replicate (?M - (length ?pre + length msg) - length RESET_NEWLINE) NUL,
                 length RESET_NEWLINE)"
    using assms(5) by (intro c_snprintf_zero_tail) simp_all
  then have s3: "c_snprintf (?pre @ msg @ replicate (?M - (length ?pre + length msg)) NUL)
           (length ?pre + length msg) (?M - (length ?pre + length msg)) RESET_NEWLINE
          = Inr (?pre @ msg @ RESET_NEWLINE
                   @ replicate (?M - (length ?pre + length msg + length RESET_NEWLINE)) NUL,
                 length RESET_NEWLINE)"
    by (simp add: diff_diff_left)
  have m: "(length ?pre + length msg + psz) mod 256 = length ?pre + length msg + psz"
    using assms(4) by (simp add: LOGGER_BUFFER_MAX_LENGTH_def)
  show ?thesis
    using test inr by (simp add: ZB_printf_def s1 s2 n s3 m)
qed

lemma registered_state:
  "GetCurrentLogLevel (LoggerRegisterAppFunctions clock sink initial_state) = WARN"
  "pfLoggerPrintf (LoggerRegisterAppFunctions clock sink initial_state) = sink"
  "pfGetMilliseconds (LoggerRegisterAppFunctions clock sink initial_state) = clock"
  "sink_calls (LoggerRegisterAppFunctions clock sink initial_state) = []"
  "GetAppName (LoggerRegisterAppFunctions clock sink initial_state) = ''MyApp''"
  by (simp_all add: GetCurrentLogLevel_def LoggerRegisterAppFunctions_def initial_state_def
      GetAppName_def c_str_def NUL_def APP_NAME_SIZE_def)

lemma unregistered_state:
  "LoggerRegisterAppFunctions None False initial_state = initial_state"
  by (simp add: LoggerRegisterAppFunctions_def initial_state_def)

lemma sentinel_rendering: "fmt_f1 (- 1) = ''-1.0''"
  by (simp add: fmt_f1_def round_tenths_def dec_nat.simps digit_char_def)

lemma level_entries:
  "snd (logger_array ! 2) = [CHR 0x1B] @ ''[33;1m''" "fst (logger_array ! 2) = ''WARN''"
  "snd (logger_array ! 3) = [CHR 0x1B] @ ''[31;1m''" "fst (logger_array ! 3) = ''ERR''"
  by (simp_all add: logger_array_def)

lemma main_c_10: "GetFileNameFromPath ''main.c'' = ''main.c''" "fmt_d 10 = ''10''"
  by code_simp+

lemma pre_WARN:
  "preamble (LoggerRegisterAppFunctions None sink initial_state) 2 ''main.c'' function 10
     = [CHR 0x1B] @ ''[33;1mMyApp[-1.0] : WARN : main.c : '' @ function @ '' : 10 -> ''"
  by (simp add: preamble_def registered_state GetMilliseconds_def sentinel_rendering
      level_entries main_c_10)

lemma pre_ERR:
  "preamble (LoggerRegisterAppFunctions None sink initial_state) 3 ''main.c'' function 10
     = [CHR 0x1B] @ ''[31;1mMyApp[-1.0] : ERR : main.c : '' @ function @ '' : 10 -> ''"
  by (simp add: preamble_def registered_state GetMilliseconds_def sentinel_rendering
      level_entries main_c_10)

lemma LoggerPrintf_state:
  "LoggerPrintf p len s
     = s\<lparr>sink_calls := (if pfLoggerPrintf s then sink_calls s @ [(p, len)] else sink_calls s)\<rparr>"
  by (simp add: LoggerPrintf_def)


subsection \<open>Below the threshold\<close>

text \<open>
  Claim C4. A call whose level is strictly below the current threshold is a no-op:
  the state that comes back is the state that went in, so the buffer is unchanged
  and the sink is not called. The levels are the enumerators' values, from 0; a
  negative \<open>int\<close> is no severity, and converted to unsigned it is not below the
  threshold.
\<close>

theorem ZB_printf_below_threshold:
  assumes "0 \<le> level" and "level < level_num (GetCurrentLogLevel s)"
  shows "ZB_printf psz level file function line msg s = Inr s"
proof -
  have "level_num (GetCurrentLogLevel s) \<le> 4"
    by (cases "GetCurrentLogLevel s") simp_all
  then have "level mod 2 ^ 32 = level"
    using assms by simp
  then show ?thesis
    using assms(2) by (simp add: ZB_printf_def)
qed

theorem ZB_printf_below_threshold_witness:
  "(0::int) \<le> 1 \<and> 1 < level_num (GetCurrentLogLevel (LoggerRegisterAppFunctions None True initial_state))
   \<and> ZB_printf 4 1 ''main.c'' ''main'' 10 ''hi'' (LoggerRegisterAppFunctions None True initial_state)
       = Inr (LoggerRegisterAppFunctions None True initial_state)
   \<and> logger_buffer (LoggerRegisterAppFunctions None True initial_state)
       = replicate LOGGER_BUFFER_MAX_LENGTH NUL
   \<and> sink_calls (LoggerRegisterAppFunctions None True initial_state) = []"
proof -
  let ?s = "LoggerRegisterAppFunctions None True initial_state"
  have h: "1 < level_num (GetCurrentLogLevel ?s)"
    by (simp add: GetCurrentLogLevel_def LoggerRegisterAppFunctions_def initial_state_def)
  have z: "(0::int) \<le> 1" by simp
  show ?thesis
    using ZB_printf_below_threshold [OF z h, of 4 "''main.c''" "''main''" 10 "''hi''"] h
    by (simp add: LoggerRegisterAppFunctions_def initial_state_def)
qed

subsection \<open>No clock, no sink\<close>





subsection \<open>The initial threshold\<close>

text \<open>
  Claim C10 as it is stated fails on "delivered". In the default configuration no
  sink is registered and \<open>LoggerPrintf\<close> tests the pointer, so a WARN call delivers
  nothing. With a sink registered, an ERR call whose message is truncated hands the
  sink the length \<open>(248 + 8) mod 256 = 0\<close>: no byte of the record.
\<close>

theorem default_configuration_delivers_nothing:
  "map_sum id sink_calls (ZB_printf 4 2 ''main.c'' ''main'' 10 ''hi'' initial_state) = Inr []
   \<and> map_sum id (map delivered \<circ> sink_calls)
         (ZB_printf 8 3 ''main.c'' ''main'' 10 (replicate 300 CHR ''x'')
            (LoggerRegisterAppFunctions None True initial_state))
       = Inr [[]]"
proof -
  have "map_sum id sink_calls
          (ZB_printf 4 2 ''main.c'' ''main'' 10 ''hi''
             (LoggerRegisterAppFunctions None False initial_state)) = Inr []"
    by (simp add: ZB_printf_def pre_WARN [of False "''main''", simplified] registered_state
        logger_array_def c_snprintf_def message_part_def to_size_t_def
        LOGGER_BUFFER_MAX_LENGTH_def write_at_def LoggerPrintf_def RESET_NEWLINE_def)
  then have a: "map_sum id sink_calls
                  (ZB_printf 4 2 ''main.c'' ''main'' 10 ''hi'' initial_state) = Inr []"
    by (simp only: unregistered_state)
  have b: "map_sum id (map delivered \<circ> sink_calls)
         (ZB_printf 8 3 ''main.c'' ''main'' 10 (replicate 300 CHR ''x'')
            (LoggerRegisterAppFunctions None True initial_state))
       = Inr [[]]"
    by (simp add: ZB_printf_def pre_ERR [of True "''main''", simplified] registered_state
        logger_array_def c_snprintf_def message_part_def to_size_t_def
        LOGGER_BUFFER_MAX_LENGTH_def write_at_def LoggerPrintf_def RESET_NEWLINE_def
        delivered_def)
  show ?thesis
    using a b by (rule conjI)
qed

text \<open>
  Claim C10, amended. Before any \<open>SetCurrentLogLevel\<close> the threshold is WARN:
  \<open>GetCurrentLogLevel\<close> returns WARN, with or without registered functions. A call at
  DBG or INFO returns the state unchanged. A call at WARN, ERR or FATAL whose
  preamble and message leave room for the reserved bytes and the trailer formats
  preamble, message and trailer into the buffer, and when a sink has been registered
  it calls the sink once, with that buffer and the length preamble + message +
  \<open>sizeof(RESET_NEWLINE)\<close>.
\<close>

theorem initial_threshold_is_WARN:
  "GetCurrentLogLevel initial_state = WARN
   \<and> GetCurrentLogLevel (LoggerRegisterAppFunctions clock sink initial_state) = WARN
   \<and> preamble (LoggerRegisterAppFunctions clock sink initial_state) lv file function line
       = snd (logger_array ! lv) @ ''MyApp[''
         @ fmt_f1 (case clock of Some t \<Rightarrow> t | None \<Rightarrow> - 1) @ ''] : ''
         @ fst (logger_array ! lv) @ '' : '' @ GetFileNameFromPath file
         @ '' : '' @ function @ '' : '' @ fmt_d line @ '' -> ''
   \<and> (\<forall>level \<in> {level_num DBG, level_num INFO}.
          ZB_printf psz level file function line msg
              (LoggerRegisterAppFunctions clock sink initial_state)
            = Inr (LoggerRegisterAppFunctions clock sink initial_state))
   \<and> (\<forall>level \<in> {level_num WARN, level_num ERR, level_num FATAL}.
          2 \<le> psz \<longrightarrow>
          length (preamble (LoggerRegisterAppFunctions clock sink initial_state) (nat level)
                    file function line) + length msg + psz < LOGGER_BUFFER_MAX_LENGTH \<longrightarrow>
          length (preamble (LoggerRegisterAppFunctions clock sink initial_state) (nat level)
                    file function line) + length msg + length RESET_NEWLINE
            < LOGGER_BUFFER_MAX_LENGTH \<longrightarrow>
          ZB_printf psz level file function line msg
              (LoggerRegisterAppFunctions clock sink initial_state)
            = Inr ((LoggerRegisterAppFunctions clock sink initial_state)
                     \<lparr>logger_buffer :=
                        preamble (LoggerRegisterAppFunctions clock sink initial_state) (nat level)
                          file function line @ msg @ RESET_NEWLINE
                        @ replicate (LOGGER_BUFFER_MAX_LENGTH
                            - (length (preamble (LoggerRegisterAppFunctions clock sink initial_state)
                                         (nat level) file function line)
                                 + length msg + length RESET_NEWLINE)) NUL,
                      sink_calls :=
                        (if sink
                         then [(preamble (LoggerRegisterAppFunctions clock sink initial_state)
                                  (nat level) file function line @ msg @ RESET_NEWLINE
                                @ replicate (LOGGER_BUFFER_MAX_LENGTH
                                    - (length (preamble
                                                 (LoggerRegisterAppFunctions clock sink initial_state)
                                                 (nat level) file function line)
                                         + length msg + length RESET_NEWLINE)) NUL,
                                length (preamble (LoggerRegisterAppFunctions clock sink initial_state)
                                          (nat level) file function line)
                                  + length msg + psz)]
                         else [])\<rparr>))"
proof -
  let ?s = "LoggerRegisterAppFunctions clock sink initial_state"
  have init: "GetCurrentLogLevel initial_state = WARN"
    by (simp add: GetCurrentLogLevel_def initial_state_def)
  have low: "ZB_printf psz level file function line msg ?s = Inr ?s"
    if "level \<in> {level_num DBG, level_num INFO}" for level
    using that by (auto simp: ZB_printf_def registered_state)
  have high: "ZB_printf psz level file function line msg ?s
            = Inr (?s\<lparr>logger_buffer :=
                        preamble ?s (nat level) file function line @ msg @ RESET_NEWLINE
                        @ replicate (LOGGER_BUFFER_MAX_LENGTH
                            - (length (preamble ?s (nat level) file function line)
                                 + length msg + length RESET_NEWLINE)) NUL,
                      sink_calls :=
                        (if sink
                         then [(preamble ?s (nat level) file function line @ msg @ RESET_NEWLINE
                                @ replicate (LOGGER_BUFFER_MAX_LENGTH
                                    - (length (preamble ?s (nat level) file function line)
                                         + length msg + length RESET_NEWLINE)) NUL,
                                length (preamble ?s (nat level) file function line)
                                  + length msg + psz)]
                         else [])\<rparr>)"
    if lv: "level \<in> {level_num WARN, level_num ERR, level_num FATAL}" and p: "2 \<le> psz"
      and f1: "length (preamble ?s (nat level) file function line) + length msg + psz
                 < LOGGER_BUFFER_MAX_LENGTH"
      and f2: "length (preamble ?s (nat level) file function line) + length msg
                 + length RESET_NEWLINE < LOGGER_BUFFER_MAX_LENGTH"
    for level
  proof -
    have a: "level_num (GetCurrentLogLevel ?s) \<le> level" and b: "level \<le> 4"
      using lv by (auto simp: registered_state)
    show ?thesis
      by (simp only: ZB_printf_fits [OF a b p f1 f2] LoggerPrintf_state)
         (simp add: registered_state)
  qed
  have pre: "preamble ?s lv file function line
       = snd (logger_array ! lv) @ ''MyApp[''
         @ fmt_f1 (case clock of Some t \<Rightarrow> t | None \<Rightarrow> - 1) @ ''] : ''
         @ fst (logger_array ! lv) @ '' : '' @ GetFileNameFromPath file
         @ '' : '' @ function @ '' : '' @ fmt_d line @ '' -> ''"
    by (simp add: preamble_def registered_state GetMilliseconds_def)
  have reg: "GetCurrentLogLevel ?s = WARN"
    by (rule registered_state)
  show ?thesis
    using init reg pre low high by blast
qed

theorem initial_threshold_is_WARN_witness:
  "level_num INFO \<in> {level_num DBG, level_num INFO}
   \<and> ZB_printf 4 (level_num INFO) ''main.c'' ''main'' 10 ''hi''
         (LoggerRegisterAppFunctions None True initial_state)
       = Inr (LoggerRegisterAppFunctions None True initial_state)
   \<and> level_num ERR \<in> {level_num WARN, level_num ERR, level_num FATAL}
   \<and> (2::nat) \<le> 4
   \<and> length (preamble (LoggerRegisterAppFunctions None True initial_state) (nat (level_num ERR))
                ''main.c'' ''main'' 10) + length ''hi'' + 4 < LOGGER_BUFFER_MAX_LENGTH
   \<and> length (preamble (LoggerRegisterAppFunctions None True initial_state) (nat (level_num ERR))
                ''main.c'' ''main'' 10) + length ''hi'' + length RESET_NEWLINE
        < LOGGER_BUFFER_MAX_LENGTH
   \<and> ZB_printf 4 (level_num ERR) ''main.c'' ''main'' 10 ''hi''
         (LoggerRegisterAppFunctions None True initial_state)
       = Inr ((LoggerRegisterAppFunctions None True initial_state)
                \<lparr>logger_buffer :=
                   [CHR 0x1B] @ ''[31;1mMyApp[-1.0] : ERR : main.c : main : 10 -> hi''
                     @ RESET_NEWLINE @ replicate 199 NUL,
                 sink_calls :=
                   [([CHR 0x1B] @ ''[31;1mMyApp[-1.0] : ERR : main.c : main : 10 -> hi''
                       @ RESET_NEWLINE @ replicate 199 NUL, 55)]\<rparr>)"
proof -
  let ?t = "LoggerRegisterAppFunctions None True initial_state"
  let ?lit = "[CHR 0x1B] @ ''[31;1mMyApp[-1.0] : ERR : main.c : main : 10 -> ''"
  have p: "preamble ?t (nat (level_num ERR)) ''main.c'' ''main'' 10 = ?lit"
    using pre_ERR [of True "''main''"] by simp
  have l: "length ?lit = 49" and r: "length RESET_NEWLINE = 6"
    by (simp_all add: RESET_NEWLINE_def)
  have f1: "length (preamble ?t (nat (level_num ERR)) ''main.c'' ''main'' 10) + length ''hi'' + 4
               < LOGGER_BUFFER_MAX_LENGTH"
    unfolding p l by (simp add: LOGGER_BUFFER_MAX_LENGTH_def)
  have f2: "length (preamble ?t (nat (level_num ERR)) ''main.c'' ''main'' 10) + length ''hi''
               + length RESET_NEWLINE < LOGGER_BUFFER_MAX_LENGTH"
    unfolding p l r by (simp add: LOGGER_BUFFER_MAX_LENGTH_def)
  have m1: "level_num INFO \<in> {level_num DBG, level_num INFO}"
    and m2: "level_num ERR \<in> {level_num WARN, level_num ERR, level_num FATAL}"
    and m3: "(2::nat) \<le> 4"
    by simp_all
  note inst = initial_threshold_is_WARN [of None True 0 "''main.c''" "''main''" 10 4 "''hi''"]
  have low: "ZB_printf 4 (level_num INFO) ''main.c'' ''main'' 10 ''hi'' ?t = Inr ?t"
    using inst m1 by blast
  have "ZB_printf 4 (level_num ERR) ''main.c'' ''main'' 10 ''hi'' ?t
       = Inr (?t\<lparr>logger_buffer :=
                   preamble ?t (nat (level_num ERR)) ''main.c'' ''main'' 10 @ ''hi'' @ RESET_NEWLINE
                     @ replicate (LOGGER_BUFFER_MAX_LENGTH
                         - (length (preamble ?t (nat (level_num ERR)) ''main.c'' ''main'' 10)
                              + length ''hi'' + length RESET_NEWLINE)) NUL,
                 sink_calls :=
                   [(preamble ?t (nat (level_num ERR)) ''main.c'' ''main'' 10 @ ''hi'' @ RESET_NEWLINE
                     @ replicate (LOGGER_BUFFER_MAX_LENGTH
                         - (length (preamble ?t (nat (level_num ERR)) ''main.c'' ''main'' 10)
                              + length ''hi'' + length RESET_NEWLINE)) NUL,
                     length (preamble ?t (nat (level_num ERR)) ''main.c'' ''main'' 10)
                       + length ''hi'' + 4)]\<rparr>)"
    using inst m2 m3 f1 f2 by simp
  then have high: "ZB_printf 4 (level_num ERR) ''main.c'' ''main'' 10 ''hi'' ?t
       = Inr (?t\<lparr>logger_buffer :=
                   [CHR 0x1B] @ ''[31;1mMyApp[-1.0] : ERR : main.c : main : 10 -> hi''
                     @ RESET_NEWLINE @ replicate 199 NUL,
                 sink_calls :=
                   [([CHR 0x1B] @ ''[31;1mMyApp[-1.0] : ERR : main.c : main : 10 -> hi''
                       @ RESET_NEWLINE @ replicate 199 NUL, 55)]\<rparr>)"
    unfolding p l r by (simp add: LOGGER_BUFFER_MAX_LENGTH_def)
  show ?thesis
    using m1 m2 m3 f1 f2 low high by blast
qed

subsection \<open>Long preambles and the bytes the sink gets\<close>

text \<open>
  Claim C1, evaluated where it fails. With the default name, no clock and a
  208-character function name the preamble has 254 characters. The space left is
  computed in \<open>size_t\<close> from the size of a pointer, \<open>256 - 4 - 254\<close>, which wraps to a
  large positive number: the message is not skipped, and \<open>hello\<close> with its terminator
  is written past the end of the 256-byte buffer (the same on a 64-bit target). With
  a 207-character function name the preamble has 253 characters, the message \<open>hi\<close> is
  written at offsets 253 and 254 although \<open>256 - 4 - 253\<close> is negative, and the length
  handed to the sink is \<open>(255 + 4) mod 256 = 3\<close>.
\<close>

theorem oversize_preamble_overflows:
  "ZB_printf 4 2 ''main.c'' (replicate 208 CHR ''f'') 10 ''hello''
       (LoggerRegisterAppFunctions None True initial_state) = Inl OutOfBounds
   \<and> ZB_printf 8 2 ''main.c'' (replicate 208 CHR ''f'') 10 ''hello''
       (LoggerRegisterAppFunctions None True initial_state) = Inl OutOfBounds
   \<and> length (preamble (LoggerRegisterAppFunctions None True initial_state) 2 ''main.c''
               (replicate 207 CHR ''f'') 10) = 253
   \<and> map_sum id (\<lambda>s'. (drop 253 (logger_buffer s'), map snd (sink_calls s')))
         (ZB_printf 4 2 ''main.c'' (replicate 207 CHR ''f'') 10 ''hi''
            (LoggerRegisterAppFunctions None True initial_state))
       = Inr (''hi'' @ [NUL], [3])"
  by (simp add: ZB_printf_def pre_WARN registered_state logger_array_def c_snprintf_def
      message_part_def to_size_t_def LOGGER_BUFFER_MAX_LENGTH_def write_at_def
      LoggerPrintf_def RESET_NEWLINE_def)

text \<open>
  Claim C6, evaluated where it fails. The length handed to the sink is
  \<open>length + sizeof(RESET_NEWLINE)\<close>, the size of a pointer and not the six bytes of
  the trailer, converted to \<open>uint8_t\<close>. On a 32-bit target the sink gets the record
  and only the first four bytes of the trailer; on a 64-bit target the trailer and
  two NUL bytes after it; and for a message that is truncated, \<open>252 + 4\<close> becomes the
  length 0, so the sink gets no byte at all.
\<close>

theorem sink_bytes_miss_trailer:
  "map_sum id (map delivered \<circ> sink_calls)
       (ZB_printf 4 2 ''main.c'' ''main'' 10 ''hi''
          (LoggerRegisterAppFunctions None True initial_state))
     = Inr [[CHR 0x1B] @ ''[33;1mMyApp[-1.0] : WARN : main.c : main : 10 -> hi''
              @ take 4 RESET_NEWLINE]
   \<and> map_sum id (map delivered \<circ> sink_calls)
       (ZB_printf 8 2 ''main.c'' ''main'' 10 ''hi''
          (LoggerRegisterAppFunctions None True initial_state))
     = Inr [[CHR 0x1B] @ ''[33;1mMyApp[-1.0] : WARN : main.c : main : 10 -> hi''
              @ RESET_NEWLINE @ [NUL, NUL]]
   \<and> map_sum id (map delivered \<circ> sink_calls)
       (ZB_printf 4 2 ''main.c'' ''main'' 10 (replicate 300 CHR ''x'')
          (LoggerRegisterAppFunctions None True initial_state))
     = Inr [[]]"
  by (simp add: ZB_printf_def pre_WARN [of True "''main''", simplified] registered_state logger_array_def c_snprintf_def
      message_part_def to_size_t_def LOGGER_BUFFER_MAX_LENGTH_def write_at_def
      LoggerPrintf_def RESET_NEWLINE_def delivered_def NUL_def)

section \<open>The fault ring logger\<close>

subsection \<open>The buffer always holds a terminator\<close>

lemma c_str_prefix: "c_str buf = take (length (c_str buf)) buf"
  unfolding c_str_def by (rule takeWhile_eq_take)

lemma c_str_shorter:
  assumes "NUL \<in> set buf"
  shows "length (c_str buf) < length buf"
proof -
  have "c_str buf \<noteq> buf"
    using assms c_str_no_NUL [of buf] by auto
  moreover have "length (c_str buf) \<le> length buf"
    unfolding c_str_def by (rule length_takeWhile_le)
  ultimately show ?thesis
    using c_str_prefix [of buf] by (cases "length (c_str buf) = length buf") auto
qed

lemma takeWhile_stops: "c \<in> set xs \<Longrightarrow> length (takeWhile (\<lambda>x. x \<noteq> c) xs) < length xs"
  by (induction xs) auto

lemma c_strchr_bound: "c_strchr str c = Some i \<Longrightarrow> i < length str"
  by (auto simp: c_strchr_def takeWhile_stops split: if_splits)

lemma c_strrchr_bound:
  assumes "c_strrchr str c = Some i"
  shows "i < length str"
proof -
  have "c \<in> set str" and i: "i = length str - 1 - length (takeWhile (\<lambda>x. x \<noteq> c) (rev str))"
    using assms by (auto simp: c_strrchr_def split: if_splits)
  then have "0 < length str"
    by (cases str) auto
  then show ?thesis
    using i by simp
qed

lemma stored_ok:
  assumes "NUL \<in> set buf"
  shows "\<exists>n. length_of_stored_log buf = Inr n \<and> n \<le> length (c_str buf)"
proof (cases "c_strrchr (c_str buf) separator")
  case None
  then show ?thesis using assms by (simp add: length_of_stored_log_def)
next
  case (Some i)
  then show ?thesis
    using assms c_strrchr_bound [OF Some] by (simp add: length_of_stored_log_def)
qed

lemma latest_ok:
  assumes "NUL \<in> set buf"
  shows "\<exists>k. latest_stored_log_length buf = Inr k \<and> k \<le> length (c_str buf)"
proof (cases "c_strchr (c_str buf) separator")
  case None
  then show ?thesis using assms by (simp add: latest_stored_log_length_def)
next
  case (Some i)
  then show ?thesis
    using c_strchr_bound [OF Some] by (simp add: latest_stored_log_length_def)
qed

lemma shift_out_eq:
  assumes "length buf = LOGGER_BUFFER_MAX_LENGTH" and "k \<le> LOGGER_BUFFER_MAX_LENGTH"
  shows "shift_out k buf = drop k buf @ replicate k NUL"
  using assms by (simp add: shift_out_def write_at_def)

lemma shift_out_inv:
  assumes "length buf = LOGGER_BUFFER_MAX_LENGTH" and "NUL \<in> set buf"
    and "k \<le> length (c_str buf)"
  shows "length (shift_out k buf) = LOGGER_BUFFER_MAX_LENGTH \<and> NUL \<in> set (shift_out k buf)"
proof -
  have k: "k \<le> LOGGER_BUFFER_MAX_LENGTH"
    using assms c_str_shorter [of buf] by simp
  have eq: "shift_out k buf = drop k buf @ replicate k NUL"
    using assms(1) k by (rule shift_out_eq)
  show ?thesis
  proof (cases "k = 0")
    case True
    then show ?thesis using assms eq by simp
  next
    case False
    then show ?thesis using assms(1) k eq by simp
  qed
qed

lemma c_snprintf_NUL:
  assumes "0 < n" and "off + n \<le> length a"
  shows "\<exists>a'. c_snprintf a off n out = Inr (a', length out) \<and> length a' = length a
           \<and> NUL \<in> set a'"
proof -
  have "off + length (take (n - 1) out) + 1 \<le> length a"
    using assms by simp
  then show ?thesis
    using assms by (simp add: c_snprintf_def length_write_at write_at_def)
qed

lemma append_log_inv:
  assumes "length buf = LOGGER_BUFFER_MAX_LENGTH" and "stored < LOGGER_BUFFER_MAX_LENGTH"
  shows "\<exists>buf'. append_log behind file line buf stored = Inr buf'
           \<and> length buf' = LOGGER_BUFFER_MAX_LENGTH \<and> NUL \<in> set buf'"
proof -
  have "0 < LOGGER_BUFFER_MAX_LENGTH - stored"
    and "stored + (LOGGER_BUFFER_MAX_LENGTH - stored) \<le> length buf"
    using assms by simp_all
  from c_snprintf_NUL
    [OF this, of "GetFileNameFromPath file @ fmt_u line @ separator_rendered behind"]
  obtain a' where "c_snprintf buf stored (LOGGER_BUFFER_MAX_LENGTH - stored)
                     (GetFileNameFromPath file @ fmt_u line @ separator_rendered behind)
                   = Inr (a', length (GetFileNameFromPath file @ fmt_u line
                                        @ separator_rendered behind))"
    and "length a' = length buf" and "NUL \<in> set a'"
    by blast
  then show ?thesis
    using assms(1) by (simp add: append_log_def)
qed

lemma zeroed_inv:
  "length (replicate LOGGER_BUFFER_MAX_LENGTH NUL) = LOGGER_BUFFER_MAX_LENGTH"
  "NUL \<in> set (replicate LOGGER_BUFFER_MAX_LENGTH NUL)"
  "0 < LOGGER_BUFFER_MAX_LENGTH"
  by (simp_all add: LOGGER_BUFFER_MAX_LENGTH_def)

lemma evict_loop_inv_aux:
  assumes run: "evict_loop new buf = Some r"
  shows "length buf = LOGGER_BUFFER_MAX_LENGTH \<and> NUL \<in> set buf \<longrightarrow>
   (\<exists>buf' stored. r = Inr (buf', stored) \<and> length buf' = LOGGER_BUFFER_MAX_LENGTH
      \<and> NUL \<in> set buf' \<and> stored < LOGGER_BUFFER_MAX_LENGTH
      \<and> \<not> LOGGER_BUFFER_MAX_LENGTH - stored < new)"
proof (induction rule: evict_loop.raw_induct [OF _ run])
  case (1 evict_loop new buf r)
  note IH = 1(1) and body = 1(2)
  show ?case
  proof (intro impI)
    assume inv: "length buf = LOGGER_BUFFER_MAX_LENGTH \<and> NUL \<in> set buf"
    then have len: "length buf = LOGGER_BUFFER_MAX_LENGTH" and nul: "NUL \<in> set buf"
      by simp_all
    from latest_ok [OF nul]
    obtain k where k: "latest_stored_log_length buf = Inr k" "k \<le> length (c_str buf)"
      by blast
    from shift_out_inv [OF len nul k(2)]
    have inv': "length (shift_out k buf) = LOGGER_BUFFER_MAX_LENGTH"
      "NUL \<in> set (shift_out k buf)"
      by simp_all
    from stored_ok [OF inv'(2)]
    obtain n where n: "length_of_stored_log (shift_out k buf) = Inr n"
      "n \<le> length (c_str (shift_out k buf))"
      by blast
    have nlt: "n < LOGGER_BUFFER_MAX_LENGTH"
      using n(2) c_str_shorter [OF inv'(2)] inv'(1) by simp
    show "\<exists>buf' stored. r = Inr (buf', stored) \<and> length buf' = LOGGER_BUFFER_MAX_LENGTH
      \<and> NUL \<in> set buf' \<and> stored < LOGGER_BUFFER_MAX_LENGTH
      \<and> \<not> LOGGER_BUFFER_MAX_LENGTH - stored < new"
    proof (cases "LOGGER_BUFFER_MAX_LENGTH - n < new")
      case True
      then have "evict_loop new (shift_out k buf) = Some r"
        using body by (simp add: k n)
      from IH [OF this] inv' show ?thesis by simp
    next
      case False
      then have "r = Inr (shift_out k buf, n)"
        using body by (simp add: k n)
      then show ?thesis
        using inv' nlt False by simp
    qed
  qed
qed

lemma evict_loop_inv:
  assumes "evict_loop new buf = Some r"
    and "length buf = LOGGER_BUFFER_MAX_LENGTH" and "NUL \<in> set buf"
  shows "\<exists>buf' stored. r = Inr (buf', stored) \<and> length buf' = LOGGER_BUFFER_MAX_LENGTH
           \<and> NUL \<in> set buf' \<and> stored < LOGGER_BUFFER_MAX_LENGTH
           \<and> \<not> LOGGER_BUFFER_MAX_LENGTH - stored < new"
  using evict_loop_inv_aux [OF assms(1)] assms(2,3) by simp

lemma ZB_printf_hf_inv:
  assumes "ZB_printf_hf behind file line buf = Some r"
    and "length buf = LOGGER_BUFFER_MAX_LENGTH" and "NUL \<in> set buf"
  shows "\<exists>buf'. r = Inr buf' \<and> length buf' = LOGGER_BUFFER_MAX_LENGTH \<and> NUL \<in> set buf'"
proof -
  from stored_ok [OF assms(3)]
  obtain n where n: "length_of_stored_log buf = Inr n" "n \<le> length (c_str buf)"
    by blast
  have nlt: "n < LOGGER_BUFFER_MAX_LENGTH"
    using n(2) c_str_shorter [OF assms(3)] assms(2) by simp
  consider (empty) "n = 0"
    | (evict) "n \<noteq> 0" "LOGGER_BUFFER_MAX_LENGTH - n < new_log_length file line"
    | (fits) "n \<noteq> 0" "\<not> LOGGER_BUFFER_MAX_LENGTH - n < new_log_length file line"
    by blast
  then show ?thesis
  proof cases
    case empty
    then have "r = append_log behind file line (replicate LOGGER_BUFFER_MAX_LENGTH NUL) 0"
      using assms(1) by (simp add: ZB_printf_hf_def n)
    then show ?thesis
      using append_log_inv [OF zeroed_inv(1) zeroed_inv(3), of behind "file" line] by simp
  next
    case fits
    then have "r = append_log behind file line buf n"
      using assms(1) nlt by (simp add: ZB_printf_hf_def n)
    then show ?thesis
      using append_log_inv [OF assms(2) nlt, of behind "file" line] by simp
  next
    case evict
    then obtain r' where r': "evict_loop (new_log_length file line) buf = Some r'"
      using assms(1) nlt by (auto simp: ZB_printf_hf_def n split: option.splits)
    from evict_loop_inv [OF r' assms(2,3)]
    obtain buf' stored where s: "r' = Inr (buf', stored)"
      "length buf' = LOGGER_BUFFER_MAX_LENGTH" "stored < LOGGER_BUFFER_MAX_LENGTH"
      by blast
    then have "r = append_log behind file line buf' stored"
      using assms(1) nlt evict r' by (simp add: ZB_printf_hf_def n)
    then show ?thesis
      using append_log_inv [OF s(2,3), of behind "file" line] by simp
  qed
qed

lemma reachable_inv:
  "reachable buf \<Longrightarrow> length buf = LOGGER_BUFFER_MAX_LENGTH \<and> NUL \<in> set buf"
proof (induction rule: reachable.induct)
  case zeroed
  show ?case by (simp add: zeroed_inv)
next
  case (call buf b f l buf')
  then show ?case
    using ZB_printf_hf_inv [of b f l buf "Inr buf'"] by simp
qed

text \<open>
  Claim C8. In every buffer that calls of \<open>ZB_printf\<close> reach from the zeroed array,
  whatever the calls find in memory behind \<open>separator\<close>, the scan for the last
  separator stays inside the array and the stored length it computes is at most the
  capacity 256, so the condition of the branch that clears the buffer and returns,
  \<open>length_of_stored_log > 256\<close>, never holds.
\<close>

theorem case_B_unreachable:
  assumes "reachable buf"
  shows "\<exists>stored. length_of_stored_log buf = Inr stored \<and> stored \<le> LOGGER_BUFFER_MAX_LENGTH"
proof -
  from reachable_inv [OF assms]
  have len: "length buf = LOGGER_BUFFER_MAX_LENGTH" and nul: "NUL \<in> set buf"
    by simp_all
  from stored_ok [OF nul]
  obtain n where n: "length_of_stored_log buf = Inr n" "n \<le> length (c_str buf)"
    by blast
  have "n < LOGGER_BUFFER_MAX_LENGTH"
    using n(2) c_str_shorter [OF nul] len by simp
  then show ?thesis
    using n(1) by simp
qed

theorem case_B_unreachable_witness:
  "reachable (''main.c10-x-y'' @ replicate 244 NUL)
   \<and> (\<exists>stored. length_of_stored_log (''main.c10-x-y'' @ replicate 244 NUL) = Inr stored
         \<and> stored \<le> LOGGER_BUFFER_MAX_LENGTH)"
proof -
  have "ZB_printf_hf ''x-y'' ''main.c'' 10 (replicate LOGGER_BUFFER_MAX_LENGTH NUL)
          = Some (Inr (''main.c10-x-y'' @ replicate 244 NUL))"
    by code_simp
  from reachable.call [OF reachable.zeroed this]
  have r: "reachable (''main.c10-x-y'' @ replicate 244 NUL)" .
  show ?thesis
    using case_B_unreachable [OF r] r by simp
qed

subsection \<open>The eviction loop: when it ends\<close>

lemma evict_loop_diverges:
  assumes "LOGGER_BUFFER_MAX_LENGTH < new" and "length buf = LOGGER_BUFFER_MAX_LENGTH"
    and "NUL \<in> set buf"
  shows "evict_loop new buf = None"
proof (cases "evict_loop new buf")
  case None
  then show ?thesis .
next
  case (Some r)
  from evict_loop_inv [OF Some assms(2,3)]
  obtain stored where "\<not> LOGGER_BUFFER_MAX_LENGTH - stored < new"
    by blast
  then show ?thesis
    using assms(1) by simp
qed

lemma c_str_shift_out:
  assumes "length buf = LOGGER_BUFFER_MAX_LENGTH" and "NUL \<in> set buf"
    and "0 < k" and "k \<le> length (c_str buf)"
  shows "c_str (shift_out k buf) = drop k (c_str buf)"
proof -
  let ?P = "\<lambda>c. c \<noteq> NUL"
  let ?rest = "dropWhile ?P buf @ replicate k NUL"
  have k: "k \<le> LOGGER_BUFFER_MAX_LENGTH"
    using assms c_str_shorter [of buf] by simp
  have "buf = c_str buf @ dropWhile ?P buf"
    by (simp add: c_str_def)
  then have "drop k buf = drop k (c_str buf) @ dropWhile ?P buf"
    using assms(4) by (metis drop_append diff_is_0_eq drop0)
  then have eq: "shift_out k buf = drop k (c_str buf) @ ?rest"
    using shift_out_eq [OF assms(1) k] by simp
  have stop: "takeWhile ?P ?rest = []"
  proof (cases "dropWhile ?P buf")
    case Nil
    then show ?thesis using assms(2) by auto
  next
    case (Cons x xs)
    then have "\<not> ?P x"
      using hd_dropWhile [of ?P buf] by simp
    then show ?thesis using Cons by simp
  qed
  have "\<And>x. x \<in> set (drop k (c_str buf)) \<Longrightarrow> ?P x"
    using c_str_no_NUL [of buf] by (auto dest: in_set_dropD)
  then have split: "takeWhile ?P (drop k (c_str buf) @ ?rest)
               = drop k (c_str buf) @ takeWhile ?P ?rest"
    by (rule takeWhile_append2)
  have "c_str (shift_out k buf) = takeWhile ?P (shift_out k buf)"
    by (simp add: c_str_def)
  also have "\<dots> = takeWhile ?P (drop k (c_str buf) @ ?rest)"
    by (simp only: eq)
  also have "\<dots> = drop k (c_str buf)"
    by (simp only: split stop append_Nil2)
  finally show ?thesis .
qed

lemma nothing_latest_nothing_stored:
  assumes "latest_stored_log_length buf = Inr 0" and "NUL \<in> set buf"
  shows "length_of_stored_log buf = Inr 0"
proof -
  have "c_strchr (c_str buf) separator = None"
    using assms(1) by (auto simp: latest_stored_log_length_def split: option.splits)
  then have "separator \<notin> set (c_str buf)"
    by (simp add: c_strchr_def split: if_splits)
  then show ?thesis
    using assms(2) by (simp add: length_of_stored_log_def c_strrchr_def)
qed

lemma evict_loop_terminates:
  assumes "new \<le> LOGGER_BUFFER_MAX_LENGTH"
  shows "length buf = LOGGER_BUFFER_MAX_LENGTH \<Longrightarrow> NUL \<in> set buf \<Longrightarrow>
         \<exists>r. evict_loop new buf = Some r"
proof (induction "length (c_str buf)" arbitrary: buf rule: less_induct)
  case less
  note len = less.prems(1) and nul = less.prems(2)
  from latest_ok [OF nul]
  obtain k where k: "latest_stored_log_length buf = Inr k" "k \<le> length (c_str buf)"
    by blast
  from shift_out_inv [OF len nul k(2)]
  have inv': "length (shift_out k buf) = LOGGER_BUFFER_MAX_LENGTH"
    "NUL \<in> set (shift_out k buf)"
    by simp_all
  from stored_ok [OF inv'(2)]
  obtain n where n: "length_of_stored_log (shift_out k buf) = Inr n"
    by blast
  show ?case
  proof (cases "LOGGER_BUFFER_MAX_LENGTH - n < new")
    case False
    then have "evict_loop new buf = Some (Inr (shift_out k buf, n))"
      by (subst evict_loop.simps) (simp add: k n)
    then show ?thesis by blast
  next
    case True
    then have n0: "n \<noteq> 0"
      using assms by auto
    have kpos: "0 < k"
    proof (rule ccontr)
      assume "\<not> 0 < k"
      then have k0: "k = 0" by simp
      then have "shift_out k buf = buf"
        using shift_out_eq [OF len, of 0] by simp
      moreover have "length_of_stored_log buf = Inr 0"
        using nothing_latest_nothing_stored [OF _ nul] k(1) k0 by simp
      ultimately show False
        using n n0 by simp
    qed
    have "length (c_str (shift_out k buf)) < length (c_str buf)"
      using c_str_shift_out [OF len nul kpos k(2)] kpos k(2) by simp
    from less.hyps [OF this inv']
    obtain r where "evict_loop new (shift_out k buf) = Some r"
      by blast
    then have "evict_loop new buf = Some r"
      using True by (subst evict_loop.simps) (simp add: k n)
    then show ?thesis by blast
  qed
qed

lemma ZB_printf_hf_diverges:
  assumes "length buf = LOGGER_BUFFER_MAX_LENGTH"
    and "length_of_stored_log buf = Inr stored" and "stored \<noteq> 0"
    and "LOGGER_BUFFER_MAX_LENGTH < new_log_length file line"
  shows "ZB_printf_hf behind file line buf = None"
proof -
  have nul: "NUL \<in> set buf"
    using assms(2) by (auto simp: length_of_stored_log_def split: if_splits)
  from stored_ok [OF nul] assms(2)
  have "stored \<le> length (c_str buf)"
    by simp
  then have lt: "stored < LOGGER_BUFFER_MAX_LENGTH"
    using c_str_shorter [OF nul] assms(1) by simp
  have "evict_loop (new_log_length file line) buf = None"
    using assms(4,1) nul by (rule evict_loop_diverges)
  then show ?thesis
    using assms(2,3,4) lt by (simp add: ZB_printf_hf_def)
qed

lemma ZB_printf_hf_terminates:
  assumes "length buf = LOGGER_BUFFER_MAX_LENGTH"
    and "new_log_length file line \<le> LOGGER_BUFFER_MAX_LENGTH"
  shows "\<exists>r. ZB_printf_hf behind file line buf = Some r"
proof (cases "NUL \<in> set buf")
  case False
  then show ?thesis
    by (simp add: ZB_printf_hf_def length_of_stored_log_def)
next
  case True
  from evict_loop_terminates [OF assms(2,1) True]
  obtain r where "evict_loop (new_log_length file line) buf = Some r"
    by blast
  then show ?thesis
    by (simp add: ZB_printf_hf_def split: sum.splits prod.splits)
qed

text \<open>
  Claim C5. For a 256-byte buffer: when the stored length is not 0 (the buffer is
  not empty) and the new token's computed length exceeds 256, the call does not
  return, because the loop's exit condition is never met; and every call whose
  computed token length is at most 256 returns. Neither depends on what lies behind
  \<open>separator\<close>.
\<close>

theorem eviction_loop_termination:
  assumes "length buf = LOGGER_BUFFER_MAX_LENGTH"
  shows "(length_of_stored_log buf = Inr stored \<and> stored \<noteq> 0
            \<and> LOGGER_BUFFER_MAX_LENGTH < new_log_length file line
          \<longrightarrow> ZB_printf_hf behind file line buf = None)
       \<and> (new_log_length file' line' \<le> LOGGER_BUFFER_MAX_LENGTH
          \<longrightarrow> (\<exists>r. ZB_printf_hf behind' file' line' buf = Some r))"
  using ZB_printf_hf_diverges [OF assms] ZB_printf_hf_terminates [OF assms] by blast

lemma long_name_length: "new_log_length (replicate 300 CHR ''a'') 10 = 303"
proof -
  have "GetFileNameFromPath (replicate 300 CHR ''a'') = replicate 300 CHR ''a''"
    by (simp add: GetFileNameFromPath_def c_strrchr_def)
  moreover have "length_of_line 10 = 2"
    by code_simp
  ultimately show ?thesis
    by (simp add: new_log_length_def)
qed

theorem eviction_loop_termination_witness:
  "length (''main.c10-'' @ replicate 247 NUL) = LOGGER_BUFFER_MAX_LENGTH
   \<and> length_of_stored_log (''main.c10-'' @ replicate 247 NUL) = Inr 9 \<and> (9::nat) \<noteq> 0
   \<and> LOGGER_BUFFER_MAX_LENGTH < new_log_length (replicate 300 CHR ''a'') 10
   \<and> ZB_printf_hf ''xy'' (replicate 300 CHR ''a'') 10 (''main.c10-'' @ replicate 247 NUL) = None
   \<and> new_log_length ''main.c'' 10 \<le> LOGGER_BUFFER_MAX_LENGTH
   \<and> (\<exists>r. ZB_printf_hf ''xy'' ''main.c'' 10 (''main.c10-'' @ replicate 247 NUL) = Some r)"
proof -
  let ?b = "''main.c10-'' @ replicate 247 NUL"
  have h0: "length ?b = LOGGER_BUFFER_MAX_LENGTH"
    by (simp add: LOGGER_BUFFER_MAX_LENGTH_def)
  have h1: "length_of_stored_log ?b = Inr 9"
    by code_simp
  have h2: "LOGGER_BUFFER_MAX_LENGTH < new_log_length (replicate 300 CHR ''a'') 10"
    by (simp add: long_name_length LOGGER_BUFFER_MAX_LENGTH_def)
  have h3: "new_log_length ''main.c'' 10 \<le> LOGGER_BUFFER_MAX_LENGTH"
    by code_simp
  note inst = eviction_loop_termination
    [OF h0, of 9 "replicate 300 CHR ''a''" 10 "''xy''" "''main.c''" 10 "''xy''"]
  have "ZB_printf_hf ''xy'' (replicate 300 CHR ''a'') 10 ?b = None"
    using inst h1 h2 by simp
  moreover have "\<exists>r. ZB_printf_hf ''xy'' ''main.c'' 10 ?b = Some r"
    using inst h3 by blast
  ultimately show ?thesis
    using h0 h1 h2 h3 by simp
qed

subsection \<open>A token that exactly fills the buffer\<close>

lemma c_str_upto_NUL:
  assumes "NUL \<notin> set x"
  shows "c_str (x @ NUL # z) = x"
proof -
  have "takeWhile (\<lambda>c. c \<noteq> NUL) (x @ NUL # z) = x @ takeWhile (\<lambda>c. c \<noteq> NUL) (NUL # z)"
    using assms by (intro takeWhile_append2) auto
  then show ?thesis
    by (simp add: c_str_def)
qed

lemma c_strrchr_last:
  assumes "T \<noteq> []" and "last T = c" and "c \<notin> set g"
  shows "c_strrchr (T @ g) c = Some (length T - 1)"
proof -
  have mem: "c \<in> set (T @ g)"
    using assms(1,2) last_in_set [of T] by auto
  obtain T' where "T = T' @ [c]"
    using assms(1,2) by (metis append_butlast_last_id)
  then have "takeWhile (\<lambda>x. x \<noteq> c) (rev T) = []"
    by simp
  moreover have "takeWhile (\<lambda>x. x \<noteq> c) (rev g @ rev T)
                   = rev g @ takeWhile (\<lambda>x. x \<noteq> c) (rev T)"
    using assms(3) by (intro takeWhile_append2) auto
  ultimately have "length (takeWhile (\<lambda>x. x \<noteq> c) (rev (T @ g))) = length g"
    by simp
  then show ?thesis
    using mem assms(1) by (simp add: c_strrchr_def del: rev_append set_append)
qed

lemma stored_behind_tokens:
  assumes "T \<noteq> []" and "last T = separator" and "NUL \<notin> set T"
    and "separator \<notin> set g" and "NUL \<notin> set g"
  shows "length_of_stored_log (T @ g @ NUL # z) = Inr (length T)"
proof -
  have "NUL \<notin> set (T @ g)"
    using assms(3,5) by simp
  from c_str_upto_NUL [OF this]
  have "c_str (T @ g @ NUL # z) = T @ g"
    by simp
  moreover have "0 < length T"
    using assms(1) by simp
  ultimately show ?thesis
    using c_strrchr_last [OF assms(1,2,4)] by (simp add: length_of_stored_log_def)
qed

lemma append_in_place:
  assumes "length (T @ g @ NUL # z) = LOGGER_BUFFER_MAX_LENGTH"
    and "T \<noteq> []" and "last T = separator" and "NUL \<notin> set T"
    and "separator \<notin> set g" and "NUL \<notin> set g"
    and "new_log_length file line \<le> LOGGER_BUFFER_MAX_LENGTH - length T"
  shows "ZB_printf_hf behind file line (T @ g @ NUL # z)
           = Some (Inr (write_at (T @ g @ NUL # z) (length T)
                          (take (LOGGER_BUFFER_MAX_LENGTH - length T - 1)
                             (GetFileNameFromPath file @ fmt_u line @ separator_rendered behind)
                           @ [NUL])))"
proof -
  let ?buf = "T @ g @ NUL # z"
  let ?out = "GetFileNameFromPath file @ fmt_u line @ separator_rendered behind"
  have st: "length_of_stored_log ?buf = Inr (length T)"
    using assms(2-6) by (rule stored_behind_tokens)
  have pos: "length T \<noteq> 0"
    using assms(2) by simp
  have lt: "length T < LOGGER_BUFFER_MAX_LENGTH"
    using assms(1) by simp
  have "length ?buf \<ge> length T + length (take (LOGGER_BUFFER_MAX_LENGTH - length T - 1) ?out) + 1"
    using assms(1) lt by simp
  then have "append_log behind file line ?buf (length T)
               = Inr (write_at ?buf (length T)
                        (take (LOGGER_BUFFER_MAX_LENGTH - length T - 1) ?out @ [NUL]))"
    using lt by (simp add: append_log_def c_snprintf_def)
  then show ?thesis
    using pos lt assms(7) by (simp add: ZB_printf_hf_def st)
qed

lemma zeroed_stored: "length_of_stored_log (replicate LOGGER_BUFFER_MAX_LENGTH NUL) = Inr 0"
  by (simp add: length_of_stored_log_def c_str_def c_strrchr_def LOGGER_BUFFER_MAX_LENGTH_def)

lemma first_call:
  "ZB_printf_hf behind file line (replicate LOGGER_BUFFER_MAX_LENGTH NUL)
     = Some (Inr (write_at (replicate LOGGER_BUFFER_MAX_LENGTH NUL) 0
                    (take (LOGGER_BUFFER_MAX_LENGTH - 1)
                       (GetFileNameFromPath file @ fmt_u line @ separator_rendered behind)
                     @ [NUL])))"
proof -
  let ?out = "GetFileNameFromPath file @ fmt_u line @ separator_rendered behind"
  have "length (take (LOGGER_BUFFER_MAX_LENGTH - 1) ?out) + 1 \<le> LOGGER_BUFFER_MAX_LENGTH"
    by (simp add: LOGGER_BUFFER_MAX_LENGTH_def)
  then have "append_log behind file line (replicate LOGGER_BUFFER_MAX_LENGTH NUL) 0
               = Inr (write_at (replicate LOGGER_BUFFER_MAX_LENGTH NUL) 0
                        (take (LOGGER_BUFFER_MAX_LENGTH - 1) ?out @ [NUL]))"
    by (simp add: append_log_def c_snprintf_def LOGGER_BUFFER_MAX_LENGTH_def)
  then show ?thesis
    by (simp add: ZB_printf_hf_def zeroed_stored)
qed

lemma calls_hf_append:
  "calls_hf behind (xs @ ys) buf =
     (case calls_hf behind xs buf of
        None \<Rightarrow> None
      | Some (Inl e) \<Rightarrow> Some (Inl e)
      | Some (Inr buf') \<Rightarrow> calls_hf behind ys buf')"
  by (induction behind xs buf rule: calls_hf.induct) (auto split: option.splits sum.splits)

lemma main_c_lines:
  "fmt_u 1 = ''1''" "fmt_u 2 = ''2''" "fmt_u 3 = ''3''"
  "new_log_length ''main.c'' 1 = 8" "new_log_length ''main.c'' 2 = 8"
  "new_log_length ''main.c'' 3 = 8"
  by code_simp+

lemma ring_tokens_snoc:
  "concat (replicate (Suc k) ''main.c1-'') = concat (replicate k ''main.c1-'') @ ''main.c1-''"
proof -
  have "replicate (Suc k) ''main.c1-'' = replicate k ''main.c1-'' @ [''main.c1-'']"
    by (simp add: replicate_append_same)
  then show ?thesis
    by (simp only: concat_append concat.simps append_Nil2)
qed

lemma ring_tokens_length: "length (concat (replicate k ''main.c1-'')) = 8 * k"
  by (induction k) simp_all

lemma ring_tokens_no_NUL: "NUL \<notin> set (concat (replicate k ''main.c1-''))"
  by (induction k) (simp_all add: NUL_def)

lemma ring_tokens_last:
  assumes "0 < k"
  shows "concat (replicate k ''main.c1-'') \<noteq> []"
    and "last (concat (replicate k ''main.c1-'')) = separator"
proof -
  obtain j where k: "k = Suc j"
    using assms by (cases k) auto
  show "concat (replicate k ''main.c1-'') \<noteq> []"
    unfolding k by simp
  show "last (concat (replicate k ''main.c1-'')) = separator"
    unfolding k ring_tokens_snoc by (simp add: separator_def)
qed

lemma take_past_prefix:
  "length xs \<le> n \<Longrightarrow> take n (xs @ ys) = xs @ take (n - length xs) ys"
  by simp

lemma ring_step:
  assumes "separator \<notin> set (c_str behind)"
    and "0 < k" and "k < 31"
    and "length (concat (replicate k ''main.c1-'') @ g @ NUL # z) = LOGGER_BUFFER_MAX_LENGTH"
    and "separator \<notin> set g" and "NUL \<notin> set g"
  shows "\<exists>g' z'. ZB_printf_hf behind ''main.c'' 1 (concat (replicate k ''main.c1-'') @ g @ NUL # z)
                     = Some (Inr (concat (replicate (Suc k) ''main.c1-'') @ g' @ NUL # z'))
           \<and> length (concat (replicate (Suc k) ''main.c1-'') @ g' @ NUL # z')
               = LOGGER_BUFFER_MAX_LENGTH
           \<and> separator \<notin> set g' \<and> NUL \<notin> set g'"
proof -
  let ?T = "concat (replicate k ''main.c1-'')"
  let ?buf = "?T @ g @ NUL # z"
  let ?g' = "take (247 - 8 * k) (c_str behind)"
  let ?z' = "drop (8 * k + 8 + length ?g' + 1) ?buf"
  have lT: "length ?T = 8 * k"
    by (rule ring_tokens_length)
  have fits: "new_log_length ''main.c'' 1 \<le> LOGGER_BUFFER_MAX_LENGTH - length ?T"
    using assms(3) by (simp add: main_c_lines lT LOGGER_BUFFER_MAX_LENGTH_def)
  have out: "GetFileNameFromPath ''main.c'' @ fmt_u 1 @ separator_rendered behind
               = ''main.c1-'' @ c_str behind"
    by (simp add: main_c_10 main_c_lines separator_rendered_def separator_def)
  have cut: "take (LOGGER_BUFFER_MAX_LENGTH - length ?T - 1) (''main.c1-'' @ c_str behind)
               = ''main.c1-'' @ ?g'"
  proof -
    have "length ''main.c1-'' \<le> LOGGER_BUFFER_MAX_LENGTH - length ?T - 1"
      using assms(3) by (simp add: lT LOGGER_BUFFER_MAX_LENGTH_def)
    from take_past_prefix [OF this, of "c_str behind"]
    have "take (LOGGER_BUFFER_MAX_LENGTH - length ?T - 1) (''main.c1-'' @ c_str behind)
            = ''main.c1-''
              @ take (LOGGER_BUFFER_MAX_LENGTH - length ?T - 1 - length ''main.c1-'')
                  (c_str behind)" .
    moreover have "LOGGER_BUFFER_MAX_LENGTH - length ?T - 1 - length ''main.c1-'' = 247 - 8 * k"
      by (simp add: lT LOGGER_BUFFER_MAX_LENGTH_def)
    ultimately show ?thesis
      by (simp only:)
  qed
  have run: "ZB_printf_hf behind ''main.c'' 1 ?buf
               = Some (Inr (write_at ?buf (length ?T) ((''main.c1-'' @ ?g') @ [NUL])))"
    using append_in_place
      [OF assms(4) ring_tokens_last [OF assms(2)] ring_tokens_no_NUL assms(5,6) fits, of behind]
    by (simp only: out cut)
  have "write_at ?buf (length ?T) ((''main.c1-'' @ ?g') @ [NUL])
          = (?T @ ''main.c1-'') @ ?g' @ NUL # ?z'"
    by (simp add: write_at_def lT)
  then have w: "write_at ?buf (length ?T) ((''main.c1-'' @ ?g') @ [NUL])
                  = concat (replicate (Suc k) ''main.c1-'') @ ?g' @ NUL # ?z'"
    by (simp only: ring_tokens_snoc)
  have "length ?T + length ((''main.c1-'' @ ?g') @ [NUL]) \<le> length ?buf"
    using assms(3) by (simp only: assms(4) lT) (simp add: LOGGER_BUFFER_MAX_LENGTH_def)
  from length_write_at [OF this]
  have l: "length (concat (replicate (Suc k) ''main.c1-'') @ ?g' @ NUL # ?z')
             = LOGGER_BUFFER_MAX_LENGTH"
    by (simp only: w assms(4))
  have g': "separator \<notin> set ?g'" "NUL \<notin> set ?g'"
    using assms(1) c_str_no_NUL [of behind] by (auto dest: in_set_takeD)
  have r': "ZB_printf_hf behind ''main.c'' 1 ?buf
              = Some (Inr (concat (replicate (Suc k) ''main.c1-'') @ ?g' @ NUL # ?z'))"
    by (simp only: run w)
  show ?thesis
    by (rule exI [where x = ?g'], rule exI [where x = ?z'], intro conjI) (rule r' l g')+
qed

lemma ring_first:
  assumes "separator \<notin> set (c_str behind)"
  shows "\<exists>g z. ZB_printf_hf behind ''main.c'' 1 (replicate LOGGER_BUFFER_MAX_LENGTH NUL)
                   = Some (Inr (concat (replicate (Suc 0) ''main.c1-'') @ g @ NUL # z))
           \<and> length (concat (replicate (Suc 0) ''main.c1-'') @ g @ NUL # z)
               = LOGGER_BUFFER_MAX_LENGTH
           \<and> separator \<notin> set g \<and> NUL \<notin> set g"
proof -
  let ?Z = "replicate LOGGER_BUFFER_MAX_LENGTH NUL"
  let ?g = "take 247 (c_str behind)"
  let ?z = "drop (8 + length ?g + 1) ?Z"
  have out: "GetFileNameFromPath ''main.c'' @ fmt_u 1 @ separator_rendered behind
               = ''main.c1-'' @ c_str behind"
    by (simp add: main_c_10 main_c_lines separator_rendered_def separator_def)
  have cut: "take (LOGGER_BUFFER_MAX_LENGTH - 1) (''main.c1-'' @ c_str behind) = ''main.c1-'' @ ?g"
  proof -
    have "length ''main.c1-'' \<le> LOGGER_BUFFER_MAX_LENGTH - 1"
      by (simp add: LOGGER_BUFFER_MAX_LENGTH_def)
    from take_past_prefix [OF this, of "c_str behind"]
    show ?thesis
      by (simp add: LOGGER_BUFFER_MAX_LENGTH_def)
  qed
  have run: "ZB_printf_hf behind ''main.c'' 1 ?Z
               = Some (Inr (write_at ?Z 0 ((''main.c1-'' @ ?g) @ [NUL])))"
    using first_call [of behind "''main.c''" 1] by (simp only: out cut)
  have w: "write_at ?Z 0 ((''main.c1-'' @ ?g) @ [NUL])
             = concat (replicate (Suc 0) ''main.c1-'') @ ?g @ NUL # ?z"
    by (simp add: write_at_def)
  have "0 + length ((''main.c1-'' @ ?g) @ [NUL]) \<le> length ?Z"
    by (simp add: LOGGER_BUFFER_MAX_LENGTH_def)
  from length_write_at [OF this]
  have l: "length (concat (replicate (Suc 0) ''main.c1-'') @ ?g @ NUL # ?z)
             = LOGGER_BUFFER_MAX_LENGTH"
    by (simp only: w length_replicate)
  have g: "separator \<notin> set ?g" "NUL \<notin> set ?g"
    using assms c_str_no_NUL [of behind] by (auto dest: in_set_takeD)
  have r': "ZB_printf_hf behind ''main.c'' 1 ?Z
              = Some (Inr (concat (replicate (Suc 0) ''main.c1-'') @ ?g @ NUL # ?z))"
    by (simp only: run w)
  show ?thesis
    by (rule exI [where x = ?g], rule exI [where x = ?z], intro conjI) (rule r' l g)+
qed

lemma ring_fill:
  assumes "separator \<notin> set (c_str behind)"
  shows "k < 31 \<Longrightarrow>
         \<exists>g z. calls_hf behind (replicate (Suc k) (''main.c'', 1))
                  (replicate LOGGER_BUFFER_MAX_LENGTH NUL)
                 = Some (Inr (concat (replicate (Suc k) ''main.c1-'') @ g @ NUL # z))
           \<and> length (concat (replicate (Suc k) ''main.c1-'') @ g @ NUL # z)
               = LOGGER_BUFFER_MAX_LENGTH
           \<and> separator \<notin> set g \<and> NUL \<notin> set g"
proof (induction k)
  case 0
  from ring_first [OF assms]
  obtain g z where
    "ZB_printf_hf behind ''main.c'' 1 (replicate LOGGER_BUFFER_MAX_LENGTH NUL)
       = Some (Inr (concat (replicate (Suc 0) ''main.c1-'') @ g @ NUL # z))"
    and r: "length (concat (replicate (Suc 0) ''main.c1-'') @ g @ NUL # z)
         = LOGGER_BUFFER_MAX_LENGTH" "separator \<notin> set g" "NUL \<notin> set g"
    by blast
  then have "calls_hf behind (replicate (Suc 0) (''main.c'', 1))
               (replicate LOGGER_BUFFER_MAX_LENGTH NUL)
             = Some (Inr (concat (replicate (Suc 0) ''main.c1-'') @ g @ NUL # z))"
    by simp
  then show ?case
    using r by blast
next
  case (Suc k)
  then have "k < 31" by simp
  from Suc.IH [OF this]
  obtain g z where
    c: "calls_hf behind (replicate (Suc k) (''main.c'', 1))
          (replicate LOGGER_BUFFER_MAX_LENGTH NUL)
        = Some (Inr (concat (replicate (Suc k) ''main.c1-'') @ g @ NUL # z))"
    and r: "length (concat (replicate (Suc k) ''main.c1-'') @ g @ NUL # z)
         = LOGGER_BUFFER_MAX_LENGTH" "separator \<notin> set g" "NUL \<notin> set g"
    by blast
  have "0 < Suc k" by simp
  from ring_step [OF assms this Suc.prems r]
  obtain g' z' where
    s: "ZB_printf_hf behind ''main.c'' 1 (concat (replicate (Suc k) ''main.c1-'') @ g @ NUL # z)
          = Some (Inr (concat (replicate (Suc (Suc k)) ''main.c1-'') @ g' @ NUL # z'))"
    and r': "length (concat (replicate (Suc (Suc k)) ''main.c1-'') @ g' @ NUL # z')
         = LOGGER_BUFFER_MAX_LENGTH" "separator \<notin> set g'" "NUL \<notin> set g'"
    by blast
  have "replicate (Suc (Suc k)) (''main.c'', 1::int)
          = replicate (Suc k) (''main.c'', 1) @ [(''main.c'', 1)]"
    by (simp add: replicate_append_same)
  then have "calls_hf behind (replicate (Suc (Suc k)) (''main.c'', 1))
               (replicate LOGGER_BUFFER_MAX_LENGTH NUL)
             = Some (Inr (concat (replicate (Suc (Suc k)) ''main.c1-'') @ g' @ NUL # z'))"
    by (simp only: calls_hf_append c s option.case sum.case calls_hf.simps)
  then show ?case
    using r' by blast
qed

lemma exact_fit_call:
  assumes "length (T @ g @ NUL # z) = LOGGER_BUFFER_MAX_LENGTH"
    and "length T = 248" and "last T = separator" and "NUL \<notin> set T"
    and "separator \<notin> set g" and "NUL \<notin> set g"
    and "fmt_u l = [d]" and "new_log_length ''main.c'' l = 8"
  shows "ZB_printf_hf behind ''main.c'' l (T @ g @ NUL # z)
           = Some (Inr (T @ (''main.c'' @ [d]) @ [NUL]))"
proof -
  let ?buf = "T @ g @ NUL # z"
  have ne: "T \<noteq> []"
    using assms(2) by auto
  have fits: "new_log_length ''main.c'' l \<le> LOGGER_BUFFER_MAX_LENGTH - length T"
    by (simp add: assms(2,8) LOGGER_BUFFER_MAX_LENGTH_def)
  have out: "GetFileNameFromPath ''main.c'' @ fmt_u l @ separator_rendered behind
               = (''main.c'' @ [d]) @ separator_rendered behind"
    by (simp add: main_c_10 assms(7))
  have cut: "take (LOGGER_BUFFER_MAX_LENGTH - length T - 1)
               ((''main.c'' @ [d]) @ separator_rendered behind) = ''main.c'' @ [d]"
    by (simp add: assms(2) LOGGER_BUFFER_MAX_LENGTH_def)
  have run: "ZB_printf_hf behind ''main.c'' l ?buf
               = Some (Inr (write_at ?buf (length T) ((''main.c'' @ [d]) @ [NUL])))"
    using append_in_place [OF assms(1) ne assms(3-6) fits, of behind]
    by (simp only: out cut)
  have "drop (length T + length ((''main.c'' @ [d]) @ [NUL])) ?buf = []"
    using assms(1) by (simp add: assms(2) LOGGER_BUFFER_MAX_LENGTH_def)
  then have "write_at ?buf (length T) ((''main.c'' @ [d]) @ [NUL])
               = T @ (''main.c'' @ [d]) @ [NUL]"
    by (simp add: write_at_def)
  then show ?thesis
    by (simp only: run)
qed

lemma ring_31:
  assumes "separator \<notin> set (c_str behind)"
  shows "\<exists>g z. calls_hf behind (replicate 31 (''main.c'', 1))
                  (replicate LOGGER_BUFFER_MAX_LENGTH NUL)
                 = Some (Inr (concat (replicate 31 ''main.c1-'') @ g @ NUL # z))
           \<and> length (concat (replicate 31 ''main.c1-'') @ g @ NUL # z)
               = LOGGER_BUFFER_MAX_LENGTH
           \<and> separator \<notin> set g \<and> NUL \<notin> set g"
proof -
  have e: "Suc 30 = 31" and l: "(30::nat) < 31"
    by simp_all
  show ?thesis
    using ring_fill [OF assms l] unfolding e .
qed

lemma ring_31_tokens:
  "length (concat (replicate 31 ''main.c1-'')) = 248"
  "last (concat (replicate 31 ''main.c1-'')) = separator"
  "concat (replicate 31 ''main.c1-'') \<noteq> []"
  using ring_tokens_length [of 31] ring_tokens_last [of 31] by simp_all

lemma unsigned_minus_one: "fmt_u (- 1) = ''4294967295''"
  by (simp add: fmt_u_def dec_nat.simps digit_char_def)

lemma basename_a_c: "GetFileNameFromPath ''a.c'' = ''a.c''"
  by code_simp

lemma negative_line_token:
  "\<exists>buf. ZB_printf_hf behind ''a.c'' (- 1) (replicate LOGGER_BUFFER_MAX_LENGTH NUL)
           = Some (Inr buf)
     \<and> take 14 buf = ''a.c4294967295-''"
proof -
  let ?Z = "replicate LOGGER_BUFFER_MAX_LENGTH NUL"
  let ?g = "take 241 (c_str behind)"
  have out: "GetFileNameFromPath ''a.c'' @ fmt_u (- 1) @ separator_rendered behind
               = ''a.c4294967295-'' @ c_str behind"
    by (simp add: basename_a_c unsigned_minus_one separator_rendered_def separator_def)
  have cut: "take (LOGGER_BUFFER_MAX_LENGTH - 1) (''a.c4294967295-'' @ c_str behind)
               = ''a.c4294967295-'' @ ?g"
  proof -
    have "length ''a.c4294967295-'' \<le> LOGGER_BUFFER_MAX_LENGTH - 1"
      by (simp add: LOGGER_BUFFER_MAX_LENGTH_def)
    from take_past_prefix [OF this, of "c_str behind"]
    show ?thesis
      by (simp add: LOGGER_BUFFER_MAX_LENGTH_def)
  qed
  have run: "ZB_printf_hf behind ''a.c'' (- 1) ?Z
               = Some (Inr (write_at ?Z 0 ((''a.c4294967295-'' @ ?g) @ [NUL])))"
    using first_call [of behind "''a.c''" "- 1"] by (simp only: out cut)
  have "take 14 (write_at ?Z 0 ((''a.c4294967295-'' @ ?g) @ [NUL])) = ''a.c4294967295-''"
    by (simp add: write_at_def)
  then show ?thesis
    using run by blast
qed

text \<open>
  Claim C2, evaluated where it fails. Whatever lies behind \<open>separator\<close>, as long as
  no second separator comes before the first NUL there: after 31 calls with
  \<open>"main.c"\<close> and line 1 the first 248 bytes of the buffer are 31 tokens \<open>main.c1-\<close>
  and the stored length is 248. The 32nd token has \<open>new_log_length\<close> 8, and
  \<open>8 > 256 - 248\<close> is false, so nothing is evicted; but \<open>snprintf\<close> with size 8 writes
  seven characters and a NUL: the bytes written are \<open>main.c1\<close> and a terminator, not
  \<open>main.c1-\<close>. For a negative line the code counts a sign and the digits, 6 bytes for
  \<open>"a.c"\<close> and \<open>-1\<close>, but \<open>%u\<close> prints the line as unsigned: the token has 14 bytes.
\<close>

theorem exact_fit_drops_separator:
  "(separator \<notin> set (c_str behind) \<longrightarrow>
      (\<exists>buf. calls_hf behind (replicate 31 (''main.c'', 1))
                (replicate LOGGER_BUFFER_MAX_LENGTH NUL) = Some (Inr buf)
         \<and> take 248 buf = concat (replicate 31 ''main.c1-'')
         \<and> length_of_stored_log buf = Inr 248
         \<and> ZB_printf_hf behind ''main.c'' 1 buf
             = Some (Inr (concat (replicate 31 ''main.c1-'') @ ''main.c1'' @ [NUL]))))
   \<and> new_log_length ''main.c'' 1 = 8
   \<and> spec_token (''main.c'', 1) = ''main.c1-''
   \<and> (\<exists>buf. ZB_printf_hf behind ''a.c'' (- 1) (replicate LOGGER_BUFFER_MAX_LENGTH NUL)
               = Some (Inr buf)
         \<and> take 14 buf = ''a.c4294967295-'')
   \<and> new_log_length ''a.c'' (- 1) = 6
   \<and> spec_token (''a.c'', - 1) = ''a.c-1-''"
proof -
  let ?T = "concat (replicate 31 ''main.c1-'')"
  have fill: "\<exists>buf. calls_hf behind (replicate 31 (''main.c'', 1))
                (replicate LOGGER_BUFFER_MAX_LENGTH NUL) = Some (Inr buf)
         \<and> take 248 buf = ?T
         \<and> length_of_stored_log buf = Inr 248
         \<and> ZB_printf_hf behind ''main.c'' 1 buf = Some (Inr (?T @ ''main.c1'' @ [NUL]))"
    if sep: "separator \<notin> set (c_str behind)"
  proof -
    from ring_31 [OF sep]
    obtain g z where
      c: "calls_hf behind (replicate 31 (''main.c'', 1)) (replicate LOGGER_BUFFER_MAX_LENGTH NUL)
            = Some (Inr (?T @ g @ NUL # z))"
      and r: "length (?T @ g @ NUL # z) = LOGGER_BUFFER_MAX_LENGTH"
        "separator \<notin> set g" "NUL \<notin> set g"
      by blast
    have t: "take 248 (?T @ g @ NUL # z) = ?T"
      using ring_31_tokens(1) by simp
    have st: "length_of_stored_log (?T @ g @ NUL # z) = Inr 248"
      using stored_behind_tokens [OF ring_31_tokens(3,2) ring_tokens_no_NUL r(2,3), of z]
      by (simp only: ring_31_tokens(1))
    have "ZB_printf_hf behind ''main.c'' 1 (?T @ g @ NUL # z)
            = Some (Inr (?T @ (''main.c'' @ [CHR ''1'']) @ [NUL]))"
      using r(1) ring_31_tokens(1,2) ring_tokens_no_NUL r(2,3) _ main_c_lines(4)
      by (rule exact_fit_call) (simp add: main_c_lines)
    then have x: "ZB_printf_hf behind ''main.c'' 1 (?T @ g @ NUL # z)
                    = Some (Inr (?T @ ''main.c1'' @ [NUL]))"
      by simp
    show ?thesis
      by (rule exI [where x = "?T @ g @ NUL # z"], intro conjI) (rule c t st x)+
  qed
  have a: "new_log_length ''main.c'' 1 = 8"
    by (rule main_c_lines)
  have b: "spec_token (''main.c'', 1) = ''main.c1-''"
    by code_simp
  have c: "new_log_length ''a.c'' (- 1) = 6"
    by code_simp
  have d: "spec_token (''a.c'', - 1) = ''a.c-1-''"
    by code_simp
  show ?thesis
    using fill a b c d negative_line_token [of behind] by blast
qed

lemma ring_after_31:
  "calls_hf [] (replicate 31 (''main.c'', 1)) (replicate LOGGER_BUFFER_MAX_LENGTH NUL)
     = Some (Inr (concat (replicate 31 ''main.c1-'') @ replicate 8 NUL))"
  by code_simp

theorem exact_fit_drops_separator_witness:
  "separator \<notin> set (c_str [])
   \<and> calls_hf [] (replicate 31 (''main.c'', 1)) (replicate LOGGER_BUFFER_MAX_LENGTH NUL)
     = Some (Inr (concat (replicate 31 ''main.c1-'') @ replicate 8 NUL))
   \<and> new_log_length ''main.c'' 1 = 8
   \<and> spec_token (''main.c'', 1) = ''main.c1-''
   \<and> ZB_printf_hf [] ''main.c'' 1 (concat (replicate 31 ''main.c1-'') @ replicate 8 NUL)
     = Some (Inr (concat (replicate 31 ''main.c1-'') @ ''main.c1'' @ [NUL]))
   \<and> new_log_length ''a.c'' (- 1) = 6
   \<and> spec_token (''a.c'', - 1) = ''a.c-1-''
   \<and> ZB_printf_hf [] ''a.c'' (- 1) (replicate LOGGER_BUFFER_MAX_LENGTH NUL)
     = Some (Inr (''a.c4294967295-'' @ [NUL] @ replicate 241 NUL))"
proof -
  have sep: "separator \<notin> set (c_str [])"
    by (simp add: c_str_def)
  note inst = exact_fit_drops_separator [of "[]"]
  from inst sep
  obtain buf where
    "calls_hf [] (replicate 31 (''main.c'', 1)) (replicate LOGGER_BUFFER_MAX_LENGTH NUL)
       = Some (Inr buf)"
    and x: "ZB_printf_hf [] ''main.c'' 1 buf
              = Some (Inr (concat (replicate 31 ''main.c1-'') @ ''main.c1'' @ [NUL]))"
    by blast
  then have "buf = concat (replicate 31 ''main.c1-'') @ replicate 8 NUL"
    by (simp only: ring_after_31 option.inject sum.inject)
  then have e: "ZB_printf_hf [] ''main.c'' 1 (concat (replicate 31 ''main.c1-'') @ replicate 8 NUL)
     = Some (Inr (concat (replicate 31 ''main.c1-'') @ ''main.c1'' @ [NUL]))"
    using x by (simp only:)
  have a: "new_log_length ''main.c'' 1 = 8" and b: "spec_token (''main.c'', 1) = ''main.c1-''"
    and c: "new_log_length ''a.c'' (- 1) = 6" and d: "spec_token (''a.c'', - 1) = ''a.c-1-''"
    using inst by blast+
  have f: "ZB_printf_hf [] ''a.c'' (- 1) (replicate LOGGER_BUFFER_MAX_LENGTH NUL)
     = Some (Inr (''a.c4294967295-'' @ [NUL] @ replicate 241 NUL))"
    by (simp add: ZB_printf_hf_def zeroed_stored [unfolded LOGGER_BUFFER_MAX_LENGTH_def]
        append_log_def c_snprintf_def unsigned_minus_one basename_a_c separator_rendered_def
        separator_def c_str_def write_at_def LOGGER_BUFFER_MAX_LENGTH_def)
  show ?thesis
    by (intro conjI) (rule sep ring_after_31 a b c d e f)+
qed

lemma stuck_ring_run:
  assumes "separator \<notin> set (c_str behind)"
  shows "calls_hf behind (replicate 31 (''main.c'', 1) @ [(''main.c'', 2), (''main.c'', 3)])
           (replicate LOGGER_BUFFER_MAX_LENGTH NUL)
         = Some (Inr (concat (replicate 31 ''main.c1-'') @ ''main.c3'' @ [NUL]))"
proof -
  let ?T = "concat (replicate 31 ''main.c1-'')"
  from ring_31 [OF assms]
  obtain g z where
    c: "calls_hf behind (replicate 31 (''main.c'', 1)) (replicate LOGGER_BUFFER_MAX_LENGTH NUL)
          = Some (Inr (?T @ g @ NUL # z))"
    and r: "length (?T @ g @ NUL # z) = LOGGER_BUFFER_MAX_LENGTH"
      "separator \<notin> set g" "NUL \<notin> set g"
    by blast
  have "ZB_printf_hf behind ''main.c'' 2 (?T @ g @ NUL # z)
          = Some (Inr (?T @ (''main.c'' @ [CHR ''2'']) @ [NUL]))"
    using r(1) ring_31_tokens(1,2) ring_tokens_no_NUL r(2,3) _ main_c_lines(5)
    by (rule exact_fit_call) (simp add: main_c_lines)
  then have two: "ZB_printf_hf behind ''main.c'' 2 (?T @ g @ NUL # z)
                    = Some (Inr (?T @ ''main.c2'' @ NUL # []))"
    by simp
  have l2: "length (?T @ ''main.c2'' @ NUL # []) = LOGGER_BUFFER_MAX_LENGTH"
    by (simp add: ring_31_tokens(1) LOGGER_BUFFER_MAX_LENGTH_def)
  have g2: "separator \<notin> set ''main.c2''" "NUL \<notin> set ''main.c2''"
    by (simp_all add: separator_def NUL_def)
  have "ZB_printf_hf behind ''main.c'' 3 (?T @ ''main.c2'' @ NUL # [])
          = Some (Inr (?T @ (''main.c'' @ [CHR ''3'']) @ [NUL]))"
    using l2 ring_31_tokens(1,2) ring_tokens_no_NUL g2 _ main_c_lines(6)
    by (rule exact_fit_call) (simp add: main_c_lines)
  then have three: "ZB_printf_hf behind ''main.c'' 3 (?T @ ''main.c2'' @ NUL # [])
                      = Some (Inr (?T @ ''main.c3'' @ [NUL]))"
    by simp
  show ?thesis
    by (simp only: calls_hf_append c two three option.case sum.case calls_hf.simps)
qed

text \<open>
  Claim C3, evaluated where it fails. After the 31 calls above, calls with lines 2
  and 3 both find the stored length 248 and a token that exactly fits, so each is
  written without its separator over the bytes of the one before. The tokens in the
  buffer are then the 31 oldest ones: the newest two are lost while the oldest stay,
  and what the scan yields is not a suffix of the tokens appended. This holds
  whatever lies behind \<open>separator\<close>, as long as no second separator comes before the
  first NUL there.
\<close>

theorem stuck_ring_loses_newest_token:
  "(separator \<notin> set (c_str behind) \<longrightarrow>
      calls_hf behind (replicate 31 (''main.c'', 1) @ [(''main.c'', 2), (''main.c'', 3)])
          (replicate LOGGER_BUFFER_MAX_LENGTH NUL)
        = Some (Inr (concat (replicate 31 ''main.c1-'') @ ''main.c3'' @ [NUL])))
   \<and> buffer_tokens (concat (replicate 31 ''main.c1-'') @ ''main.c3'' @ [NUL])
       = replicate 31 ''main.c1-''
   \<and> map spec_token (replicate 31 (''main.c'', 1) @ [(''main.c'', 2), (''main.c'', 3)])
       = replicate 31 ''main.c1-'' @ [''main.c2-'', ''main.c3-'']
   \<and> \<not> suffix (replicate 31 ''main.c1-'')
          (map spec_token (replicate 31 (''main.c'', 1) @ [(''main.c'', 2), (''main.c'', 3)]))"
proof -
  let ?calls = "replicate 31 (''main.c'', 1) @ [(''main.c'', 2), (''main.c'', 3)]"
  have toks: "buffer_tokens (concat (replicate 31 ''main.c1-'') @ ''main.c3'' @ [NUL])
        = replicate 31 ''main.c1-''"
    by code_simp
  have spec: "map spec_token ?calls = replicate 31 ''main.c1-'' @ [''main.c2-'', ''main.c3-'']"
    by code_simp
  have ns: "\<not> suffix (replicate 31 ''main.c1-'') (map spec_token ?calls)"
    unfolding spec
  proof
    assume "suffix (replicate 31 ''main.c1-'') (replicate 31 ''main.c1-'' @ [''main.c2-'', ''main.c3-''])"
    then obtain zs where "replicate 31 ''main.c1-'' @ [''main.c2-'', ''main.c3-'']
                            = zs @ replicate 31 ''main.c1-''"
      by (auto simp: suffix_def)
    then have "last (replicate 31 ''main.c1-'' @ [''main.c2-'', ''main.c3-''])
                 = last (zs @ replicate 31 ''main.c1-'')"
      by simp
    then show False by simp
  qed
  show ?thesis
    using stuck_ring_run [of behind] toks spec ns by blast
qed

theorem stuck_ring_loses_newest_token_witness:
  "separator \<notin> set (c_str [])
   \<and> map_option (map_sum id buffer_tokens)
       (calls_hf [] (replicate 31 (''main.c'', 1) @ [(''main.c'', 2), (''main.c'', 3)])
          (replicate LOGGER_BUFFER_MAX_LENGTH NUL))
     = Some (Inr (replicate 31 ''main.c1-''))
   \<and> map spec_token (replicate 31 (''main.c'', 1) @ [(''main.c'', 2), (''main.c'', 3)])
     = replicate 31 ''main.c1-'' @ [''main.c2-'', ''main.c3-'']
   \<and> \<not> suffix (replicate 31 ''main.c1-'')
          (map spec_token (replicate 31 (''main.c'', 1) @ [(''main.c'', 2), (''main.c'', 3)]))"
proof -
  let ?calls = "replicate 31 (''main.c'', 1) @ [(''main.c'', 2), (''main.c'', 3)]"
  have sep: "separator \<notin> set (c_str [])"
    by (simp add: c_str_def)
  note inst = stuck_ring_loses_newest_token [of "[]"]
  have run: "calls_hf [] ?calls (replicate LOGGER_BUFFER_MAX_LENGTH NUL)
               = Some (Inr (concat (replicate 31 ''main.c1-'') @ ''main.c3'' @ [NUL]))"
    using inst sep by blast
  have toks: "buffer_tokens (concat (replicate 31 ''main.c1-'') @ ''main.c3'' @ [NUL])
                = replicate 31 ''main.c1-''"
    using inst by blast
  have scan: "map_option (map_sum id buffer_tokens)
                (calls_hf [] ?calls (replicate LOGGER_BUFFER_MAX_LENGTH NUL))
              = Some (Inr (replicate 31 ''main.c1-''))"
    by (simp only: run toks option.map map_sum.simps id_apply)
  have spec: "map spec_token ?calls = replicate 31 ''main.c1-'' @ [''main.c2-'', ''main.c3-'']"
    and ns: "\<not> suffix (replicate 31 ''main.c1-'') (map spec_token ?calls)"
    using inst by blast+
  show ?thesis
    by (intro conjI) (rule sep scan spec ns)+
qed

end
